theory Spec2Isabelle
  imports Main "HOL-Library.FSet" "HOL-Library.Word" "HOL-Library.Sublist"
begin

section \<open>Strings\<close>

text \<open>
  A Go string is a sequence of bytes, here a \<open>char list\<close>.  The three functions of
  package \<open>strings\<close> that the scanner calls are written out on bytes.

  \<open>strings.TrimSpace\<close> removes leading and trailing white space as Unicode defines it:
  the six ASCII characters of \<open>asciiSpace\<close>, U+0085 and U+00A0 (two bytes each in
  UTF-8), and U+1680, U+2000 to U+200A, U+2028, U+2029, U+202F, U+205F and U+3000
  (three bytes each).  \<open>spaceRune\<close> gives the number of bytes of the white-space rune
  a string starts with (0 when it starts with none), \<open>spaceRuneRev\<close> does the same at
  the end of a string, read backwards.
\<close>

definition asciiSpace :: "char \<Rightarrow> bool" where
  "asciiSpace c = (c = CHR 0x09 \<or> c = CHR 0x0A \<or> c = CHR 0x0B \<or> c = CHR 0x0C
     \<or> c = CHR 0x0D \<or> c = CHR 0x20)"

definition spaceTail :: "char \<Rightarrow> char \<Rightarrow> char \<Rightarrow> bool" where
  "spaceTail a b c =
     ((a = CHR 0xE1 \<and> b = CHR 0x9A \<and> c = CHR 0x80)
    \<or> (a = CHR 0xE2 \<and> b = CHR 0x80 \<and>
         ((128::nat) \<le> of_char c \<and> (of_char c :: nat) \<le> 138
          \<or> c = CHR 0xA8 \<or> c = CHR 0xA9 \<or> c = CHR 0xAF))
    \<or> (a = CHR 0xE2 \<and> b = CHR 0x81 \<and> c = CHR 0x9F)
    \<or> (a = CHR 0xE3 \<and> b = CHR 0x80 \<and> c = CHR 0x80))"

fun spaceRune :: "string \<Rightarrow> nat" where
  "spaceRune [] = 0"
| "spaceRune [a] = (if asciiSpace a then 1 else 0)"
| "spaceRune [a, b] =
     (if asciiSpace a then 1
      else if a = CHR 0xC2 \<and> (b = CHR 0x85 \<or> b = CHR 0xA0) then 2 else 0)"
| "spaceRune (a # b # c # cs) =
     (if asciiSpace a then 1
      else if a = CHR 0xC2 \<and> (b = CHR 0x85 \<or> b = CHR 0xA0) then 2
      else if spaceTail a b c then 3 else 0)"

fun spaceRuneRev :: "string \<Rightarrow> nat" where
  "spaceRuneRev [] = 0"
| "spaceRuneRev [a] = (if asciiSpace a then 1 else 0)"
| "spaceRuneRev [b, a] =
     (if asciiSpace b then 1
      else if a = CHR 0xC2 \<and> (b = CHR 0x85 \<or> b = CHR 0xA0) then 2 else 0)"
| "spaceRuneRev (c # b # a # cs) =
     (if asciiSpace c then 1
      else if b = CHR 0xC2 \<and> (c = CHR 0x85 \<or> c = CHR 0xA0) then 2
      else if spaceTail a b c then 3 else 0)"

function TrimLeft :: "string \<Rightarrow> string" where
  "TrimLeft s = (if spaceRune s = 0 then s else TrimLeft (drop (spaceRune s) s))"
  by pat_completeness auto
termination
proof (relation "measure length")
  show "wf (measure length)" by simp
next
  fix s :: string
  assume "spaceRune s \<noteq> 0"
  then show "(drop (spaceRune s) s, s) \<in> measure length"
    by (cases s) auto
qed

function TrimLeftRev :: "string \<Rightarrow> string" where
  "TrimLeftRev s = (if spaceRuneRev s = 0 then s else TrimLeftRev (drop (spaceRuneRev s) s))"
  by pat_completeness auto
termination
proof (relation "measure length")
  show "wf (measure length)" by simp
next
  fix s :: string
  assume "spaceRuneRev s \<noteq> 0"
  then show "(drop (spaceRuneRev s) s, s) \<in> measure length"
    by (cases s) auto
qed

definition TrimSpace :: "string \<Rightarrow> string" where
  "TrimSpace s = rev (TrimLeftRev (rev (TrimLeft s)))"

text \<open>
  \<open>strings.ToLower\<close> has two paths.  A string of ASCII bytes only is mapped byte by
  byte, \<open>A\<close> to \<open>Z\<close> onto \<open>a\<close> to \<open>z\<close>.  Any other string goes through
  \<open>strings.Map(unicode.ToLower, s)\<close>, which decodes the runes and maps each by the
  case tables of package \<open>unicode\<close>.  The tables are not part of this program:
  \<open>mapUnicodeToLower\<close> stands for that call as a function of the string about which
  nothing more is said, so that what is proved holds whatever the tables are.
\<close>

definition toLowerByte :: "char \<Rightarrow> char" where
  "toLowerByte c =
     (if (65::nat) \<le> of_char c \<and> (of_char c :: nat) \<le> 90
      then char_of ((of_char c :: nat) + 32) else c)"

definition mapUnicodeToLower :: "string \<Rightarrow> string" where
  "mapUnicodeToLower = (SOME f. True)"

definition isASCII :: "string \<Rightarrow> bool" where
  "isASCII s = list_all (\<lambda>c. (of_char c :: nat) < 128) s"

definition ToLower :: "string \<Rightarrow> string" where
  "ToLower s = (if isASCII s then map toLowerByte s else mapUnicodeToLower s)"

definition HasPrefix :: "string \<Rightarrow> string \<Rightarrow> bool" where
  "HasPrefix s p = prefix p s"

section \<open>Data model\<close>

text \<open>
  \<open>githubv4.ID\<close> is an interface type (\<open>graphql.ID\<close>, declared \<open>interface{}\<close>): a
  value is nil, or a string, or a value of another dynamic type (a JSON number, say).
  An \<open>id\<close> in a response is decoded to a string; a field that is absent from the
  response, as all fields of the fragment of the other type are, stays nil.
  The other scalars are \<open>githubv4.String\<close> (a string), \<open>githubv4.Int\<close> (an
  \<open>int32\<close>), \<open>githubv4.Boolean\<close> and \<open>githubv4.DateTime\<close>, an instant, kept
  here as an integer whose 0 is the zero value.
\<close>

datatype ID = IDNil | IDString string | IDOther

type_synonym DateTime = int

type_synonym CommentAuthorAssociation = string

definition CommentAuthorAssociationMember :: CommentAuthorAssociation where
  "CommentAuthorAssociationMember = ''MEMBER''"

definition CommentAuthorAssociationOwner :: CommentAuthorAssociation where
  "CommentAuthorAssociationOwner = ''OWNER''"

definition CommentAuthorAssociationCollaborator :: CommentAuthorAssociation where
  "CommentAuthorAssociationCollaborator = ''COLLABORATOR''"

definition graphPageSize :: int where
  "graphPageSize = 100"

type_synonym Audience = string

definition AudienceAll :: Audience where
  "AudienceAll = ''all''"

definition AudienceInternal :: Audience where
  "AudienceInternal = ''internal''"

definition AudienceExternal :: Audience where
  "AudienceExternal = ''external''"

record Item =
  Repo :: string
  Number :: int
  Title :: string
  Author :: string
  CreatedAt :: DateTime

record Author =
  Login :: string

record Repository =
  Name :: string

record issueNode =
  ID :: ID
  Number :: "32 word"
  Title :: string
  CreatedAt :: DateTime
  AuthorAssociation :: CommentAuthorAssociation
  Author :: Author
  Repository :: Repository

record pullRequestNode =
  ID :: ID
  Number :: "32 word"
  Title :: string
  CreatedAt :: DateTime
  AuthorAssociation :: CommentAuthorAssociation
  Author :: Author
  Repository :: Repository

record searchNode =
  Issue :: issueNode
  PullRequest :: pullRequestNode

record PageInfo =
  HasNextPage :: bool
  EndCursor :: string

record searchQuery =
  IssueCount :: "32 word"
  PageInfo :: PageInfo
  Nodes :: "searchNode list"

record Config =
  Organization :: string
  RepoPrefix :: string
  SkipUsers :: "string list"
  IncludeIssues :: bool
  IncludePRs :: bool
  Audience :: Audience

record Result =
  ExternalIssues :: "Item list"
  InternalIssues :: "Item list"
  ExternalPRs :: "Item list"
  InternalPRs :: "Item list"
  TotalRepos :: int
  IncludeIssues :: bool
  IncludePRs :: bool
  Audience :: Audience


text \<open>
  A Go \<open>map[string]struct{}\<close> is a finite set of strings, or nil.  Its length and a
  lookup do not tell nil from the empty map.
\<close>

type_synonym stringSet = "string fset option"

definition lenSet :: "stringSet \<Rightarrow> nat" where
  "lenSet m = (case m of None \<Rightarrow> 0 | Some ks \<Rightarrow> fcard ks)"

definition inSet :: "string \<Rightarrow> stringSet \<Rightarrow> bool" where
  "inSet k m = (case m of None \<Rightarrow> False | Some ks \<Rightarrow> k |\<in>| ks)"

text \<open>
  Errors: the three fixed configuration errors of \<open>New\<close>, its formatted audience error
  (with the offending value), and whatever error a query of the GraphQL client returns.
\<close>

datatype error =
    ClientRequired
  | OrganizationRequired
  | RepositoryPrefixRequired
  | InvalidAudience Audience
  | QueryError string

text \<open>
  \<open>GraphQLClient.Query(ctx, &q, variables)\<close> fills \<open>q\<close> or returns an error.  The
  client is any implementation of the interface, so it is a function of its own state
  \<open>'c\<close>, of whether \<open>ctx\<close> is done when it is called, and of the three variables the
  scanner passes: the query string, the page size and the cursor (nil on the first page).
\<close>

type_synonym 'c GraphQLClient =
  "'c \<Rightarrow> bool \<Rightarrow> string \<Rightarrow> int \<Rightarrow> string option \<Rightarrow> (error + searchQuery) \<times> 'c"

text \<open>The \<open>logger\<close> field and the options that set it only print; they are left out.\<close>

record 'c Scanner =
  cfg :: Config
  graph :: "'c GraphQLClient"
  skipUsers :: stringSet

record searchParams =
  querySuffix :: string
  isPR :: bool

section \<open>Construction\<close>

definition buildSkipMap :: "string list \<Rightarrow> stringSet" where
  "buildSkipMap users =
     (if length users = 0 then None
      else Some (fold (\<lambda>u m. let u' = TrimSpace (ToLower u)
                              in if u' = [] then m else finsert u' m) users {||}))"

definition New :: "Config \<Rightarrow> 'c GraphQLClient option \<Rightarrow> error + 'c Scanner" where
  "New cfg0 graph0 =
     (case graph0 of
        None \<Rightarrow> Inl ClientRequired
      | Some g \<Rightarrow>
          if TrimSpace (Organization cfg0) = [] then Inl OrganizationRequired
          else if TrimSpace (RepoPrefix cfg0) = [] then Inl RepositoryPrefixRequired
          else
            let cfg1 = (if \<not> Config.IncludeIssues cfg0 \<and> \<not> Config.IncludePRs cfg0
                        then cfg0\<lparr>Config.IncludeIssues := True, Config.IncludePRs := True\<rparr>
                        else cfg0);
                cfg2 = (if Config.Audience cfg1 = []
                        then cfg1\<lparr>Config.Audience := AudienceAll\<rparr> else cfg1)
            in if Config.Audience cfg2 \<noteq> AudienceAll
                  \<and> Config.Audience cfg2 \<noteq> AudienceInternal
                  \<and> Config.Audience cfg2 \<noteq> AudienceExternal
               then Inl (InvalidAudience (Config.Audience cfg2))
               else Inr \<lparr>cfg = cfg2, graph = g, skipUsers = buildSkipMap (SkipUsers cfg2)\<rparr>)"

section \<open>Classifying and extracting\<close>

definition isInternalAssociation :: "CommentAuthorAssociation \<Rightarrow> bool" where
  "isInternalAssociation assoc =
     (if assoc = CommentAuthorAssociationMember
         \<or> assoc = CommentAuthorAssociationOwner
         \<or> assoc = CommentAuthorAssociationCollaborator
      then True else False)"

definition zeroItem :: Item where
  "zeroItem = \<lparr>Repo = [], Number = 0, Title = [], Author = [], CreatedAt = 0\<rparr>"

text \<open>
  \<open>ID == ""\<close> compares an interface value with a string: it holds when the value is
  the empty string, and does not hold for nil.
\<close>

definition idIsEmptyString :: "ID \<Rightarrow> bool" where
  "idIsEmptyString i = (case i of IDString s \<Rightarrow> s = [] | _ \<Rightarrow> False)"

definition extractItem :: "searchNode \<Rightarrow> bool \<Rightarrow> Item \<times> string \<times> string \<times> bool \<times> bool" where
  "extractItem node isPR' =
     (if isPR' then
        (let pr = PullRequest node in
         if idIsEmptyString (pullRequestNode.ID pr) \<or> Name (pullRequestNode.Repository pr) = []
         then (zeroItem, [], [], False, False)
         else
           let repoName = Name (pullRequestNode.Repository pr);
               author = Login (pullRequestNode.Author pr);
               itm = \<lparr>Repo = repoName, Number = sint (pullRequestNode.Number pr),
                      Title = pullRequestNode.Title pr, Author = author,
                      CreatedAt = pullRequestNode.CreatedAt pr\<rparr>
           in (itm, repoName, author,
               isInternalAssociation (pullRequestNode.AuthorAssociation pr), True))
      else
        (let iss = Issue node in
         if idIsEmptyString (issueNode.ID iss) \<or> Name (issueNode.Repository iss) = []
         then (zeroItem, [], [], False, False)
         else
           let repoName = Name (issueNode.Repository iss);
               author = Login (issueNode.Author iss);
               itm = \<lparr>Repo = repoName, Number = sint (issueNode.Number iss),
                      Title = issueNode.Title iss, Author = author,
                      CreatedAt = issueNode.CreatedAt iss\<rparr>
           in (itm, repoName, author,
               isInternalAssociation (issueNode.AuthorAssociation iss), True)))"


section \<open>Paginated search\<close>

text \<open>
  The buffers of one run of \<open>search\<close>: \<open>external\<close>, \<open>internal\<close> and \<open>repos\<close>, all
  three made non-nil and empty when the run starts.
\<close>

type_synonym buffers = "Item list \<times> Item list \<times> string fset"

definition emptyBuffers :: buffers where
  "emptyBuffers = ([], [], {||})"

text \<open>The body of \<open>for _, node := range q.Search.Nodes\<close>, for one node.\<close>

definition processNode :: "'c Scanner \<Rightarrow> bool \<Rightarrow> searchNode \<Rightarrow> buffers \<Rightarrow> buffers" where
  "processNode s isPR' node acc =
     (case acc of (external, internal, repos) \<Rightarrow>
      (case extractItem node isPR' of (item, repoName, author, internalAuthor, ok) \<Rightarrow>
         if \<not> ok then acc
         else if \<not> HasPrefix repoName (RepoPrefix (cfg s)) then acc
         else
           let repos' = finsert repoName repos in
           if lenSet (skipUsers s) > 0 \<and> author \<noteq> [] \<and> inSet (ToLower author) (skipUsers s)
           then (external, internal, repos')
           else if Config.Audience (cfg s) = AudienceInternal \<and> \<not> internalAuthor
           then (external, internal, repos')
           else if Config.Audience (cfg s) = AudienceExternal \<and> internalAuthor
           then (external, internal, repos')
           else if internalAuthor then (external, internal @ [item], repos')
           else (external @ [item], internal, repos')))"

definition processNodes :: "'c Scanner \<Rightarrow> bool \<Rightarrow> searchNode list \<Rightarrow> buffers \<Rightarrow> buffers" where
  "processNodes s isPR' nodes acc = fold (processNode s isPR') nodes acc"

definition queryString :: "'c Scanner \<Rightarrow> searchParams \<Rightarrow> string" where
  "queryString s params = ''org:'' @ Organization (cfg s) @ '' '' @ querySuffix params"

text \<open>
  One turn of the outer \<open>for\<close> of \<open>search\<close>: query a page with the current cursor, return
  the error if there is one, else process the nodes and either go on with the end
  cursor or return the buffers.  \<open>done\<close> says whether the context is done when the
  query is made; the loop itself never looks at the context.
\<close>

datatype pageOutcome = NextPage "string option" buffers | SearchReturns "error + buffers"

definition searchPage ::
  "'c Scanner \<Rightarrow> bool \<Rightarrow> searchParams \<Rightarrow> string option \<Rightarrow> buffers \<Rightarrow> 'c \<Rightarrow> pageOutcome \<times> 'c" where
  "searchPage s done params cursor acc c =
     (case graph s c done (queryString s params) graphPageSize cursor of
        (Inl e, c') \<Rightarrow> (SearchReturns (Inl e), c')
      | (Inr q, c') \<Rightarrow>
          let acc' = processNodes s (searchParams.isPR params) (Nodes q) acc
          in if \<not> HasNextPage (PageInfo q) then (SearchReturns (Inr acc'), c')
             else (NextPage (Some (EndCursor (PageInfo q))) acc', c'))"

text \<open>
  The loop has no bound of its own: it runs as long as the client reports a next page.
  \<open>searchLoop\<close> runs at most \<open>n\<close> turns, and is \<open>None\<close> when \<open>n\<close> turns did not reach
  a return.  \<open>ctx k\<close> says whether the context is done at the query of turn \<open>k\<close>.
\<close>

fun searchLoop ::
  "nat \<Rightarrow> 'c Scanner \<Rightarrow> (nat \<Rightarrow> bool) \<Rightarrow> searchParams \<Rightarrow> nat \<Rightarrow> string option \<Rightarrow> buffers \<Rightarrow> 'c
     \<Rightarrow> ((error + buffers) \<times> 'c) option" where
  "searchLoop 0 s ctx params k cursor acc c = None"
| "searchLoop (Suc n) s ctx params k cursor acc c =
     (case searchPage s (ctx k) params cursor acc c of
        (SearchReturns r, c') \<Rightarrow> Some (r, c')
      | (NextPage cursor' acc', c') \<Rightarrow> searchLoop n s ctx params (Suc k) cursor' acc' c')"

definition search ::
  "nat \<Rightarrow> 'c Scanner \<Rightarrow> (nat \<Rightarrow> bool) \<Rightarrow> searchParams \<Rightarrow> 'c \<Rightarrow> ((error + buffers) \<times> 'c) option" where
  "search n s ctx params c = searchLoop n s ctx params 0 None emptyBuffers c"

text \<open>
  What the client alone decides of a run: within \<open>n\<close> turns, the error that ends it
  or the nodes of all its pages in the order they came, and the client's state after.
  The filters have no part in it.
\<close>

fun fetchAll ::
  "nat \<Rightarrow> 'c GraphQLClient \<Rightarrow> string \<Rightarrow> (nat \<Rightarrow> bool) \<Rightarrow> nat \<Rightarrow> string option \<Rightarrow> 'c
     \<Rightarrow> ((error + searchNode list) \<times> 'c) option" where
  "fetchAll 0 g q ctx k cursor c = None"
| "fetchAll (Suc n) g q ctx k cursor c =
     (case g c (ctx k) q graphPageSize cursor of
        (Inl e, c') \<Rightarrow> Some (Inl e, c')
      | (Inr pg, c') \<Rightarrow>
          if \<not> HasNextPage (PageInfo pg) then Some (Inr (Nodes pg), c')
          else (case fetchAll n g q ctx (Suc k) (Some (EndCursor (PageInfo pg))) c' of
                  None \<Rightarrow> None
                | Some (Inl e, c'') \<Rightarrow> Some (Inl e, c'')
                | Some (Inr ns, c'') \<Rightarrow> Some (Inr (Nodes pg @ ns), c'')))"

text \<open>
  The repository names of the nodes that \<open>extractItem\<close> accepts and whose name starts
  with the prefix, in the order of the nodes.
\<close>

definition trackedRepos :: "string \<Rightarrow> bool \<Rightarrow> searchNode list \<Rightarrow> string list" where
  "trackedRepos pre isPR' nodes =
     List.map_filter
       (\<lambda>node. case extractItem node isPR' of
                  (item, repoName, author, internalAuthor, ok) \<Rightarrow>
                    if ok \<and> HasPrefix repoName pre then Some repoName else None)
       nodes"

section \<open>The orchestrator\<close>

record segment =
  external :: "Item list"
  internal :: "Item list"
  repos :: stringSet
  isPR :: bool
  err :: "error option"

text \<open>
  The segment \<open>runSearch\<close> builds from what \<open>search\<close> returned; on an error \<open>search\<close>
  returns three nils with it.
\<close>

definition mkSegment :: "bool \<Rightarrow> error + buffers \<Rightarrow> segment" where
  "mkSegment pr r =
     (case r of
        Inl e \<Rightarrow> \<lparr>external = [], internal = [], repos = None, isPR = pr, err = Some e\<rparr>
      | Inr (ext, inn, rs) \<Rightarrow>
          \<lparr>external = ext, internal = inn, repos = Some rs, isPR = pr, err = None\<rparr>)"

definition mergeRepoSets :: "string fset \<Rightarrow> stringSet \<Rightarrow> string fset" where
  "mergeRepoSets dst src = (case src of None \<Rightarrow> dst | Some ks \<Rightarrow> dst |\<union>| ks)"

definition initResult :: "'c Scanner \<Rightarrow> Result" where
  "initResult s =
     \<lparr>ExternalIssues = [], InternalIssues = [], ExternalPRs = [], InternalPRs = [],
      TotalRepos = 0,
      IncludeIssues = Config.IncludeIssues (cfg s),
      IncludePRs = Config.IncludePRs (cfg s),
      Audience = Config.Audience (cfg s)\<rparr>"

text \<open>The body of \<open>for seg := range resultCh\<close> below the test of \<open>seg.err\<close>.\<close>

definition mergeSegment :: "segment \<Rightarrow> Result \<times> string fset \<Rightarrow> Result \<times> string fset" where
  "mergeSegment seg rr =
     (case rr of (res, repoSet) \<Rightarrow>
        let repoSet' = mergeRepoSets repoSet (repos seg) in
        if segment.isPR seg
        then (res\<lparr>ExternalPRs := ExternalPRs res @ external seg,
                  InternalPRs := InternalPRs res @ internal seg\<rparr>, repoSet')
        else (res\<lparr>ExternalIssues := ExternalIssues res @ external seg,
                  InternalIssues := InternalIssues res @ internal seg\<rparr>, repoSet'))"

section \<open>Scan as a system of goroutines\<close>

text \<open>
  \<open>Scan\<close> starts one goroutine \<open>runSearch\<close> for each enabled category and one that
  waits for them and closes \<open>resultCh\<close>, and then receives from the channel.  The
  state below holds what they share (the context made by \<open>context.WithCancel\<close>, the
  client, the wait group, the channel) and where each of them is.  A schedule, a list
  of actors, says who takes the next step; an actor that cannot move (a receive on the
  empty open channel, a wait on a positive wait group, a goroutine that has ended)
  leaves the state as it is.

  Of the context the caller passes, all that matters is whether it can become done:
  \<open>Background\<close> never does, any other context may at any time (\<open>Cancelable\<close>),
  which is the step of the actor \<open>Caller\<close>.
\<close>

datatype Context = Background | Cancelable

datatype worker =
    NotStarted
  | Searching "string option" buffers
  | SearchDone "error + buffers"
  | Sending segment
  | Sent
  | Exited

datatype mainState = Receiving Result "string fset" | ScanReturned Result "error option"

record 'c state =
  parent :: Context
  ctxDone :: bool
  client :: 'c
  issueWorker :: worker
  prWorker :: worker
  wg :: nat
  resultCh :: "segment list"
  closed :: bool
  main :: mainState

datatype actor = RunSearch bool | WaitClose | Main | Caller

definition resultChCap :: nat where
  "resultChCap = 2"

definition paramsOf :: "bool \<Rightarrow> searchParams" where
  "paramsOf pr =
     (if pr then \<lparr>querySuffix = ''is:open is:pr'', isPR = True\<rparr>
      else \<lparr>querySuffix = ''is:open is:issue'', isPR = False\<rparr>)"

definition getWorker :: "bool \<Rightarrow> 'c state \<Rightarrow> worker" where
  "getWorker pr st = (if pr then prWorker st else issueWorker st)"

definition setWorker :: "bool \<Rightarrow> worker \<Rightarrow> 'c state \<Rightarrow> 'c state" where
  "setWorker pr w st = (if pr then st\<lparr>prWorker := w\<rparr> else st\<lparr>issueWorker := w\<rparr>)"

text \<open>
  The state in which \<open>Scan\<close> enters its receive loop: a nil context replaced by
  \<open>Background\<close>, the result and the repo set empty, one \<open>wg.Add(1)\<close> and one
  goroutine for each enabled category.
\<close>

definition ScanStart :: "'c Scanner \<Rightarrow> Context option \<Rightarrow> 'c \<Rightarrow> 'c state" where
  "ScanStart s ctx c =
     (let ctx' = (case ctx of None \<Rightarrow> Background | Some x \<Rightarrow> x) in
      \<lparr>parent = ctx', ctxDone = False, client = c,
       issueWorker = (if Config.IncludeIssues (cfg s) then Searching None emptyBuffers
                      else NotStarted),
       prWorker = (if Config.IncludePRs (cfg s) then Searching None emptyBuffers
                   else NotStarted),
       wg = (if Config.IncludeIssues (cfg s) then 1 else 0)
            + (if Config.IncludePRs (cfg s) then 1 else 0),
       resultCh = [], closed = False,
       main = Receiving (initResult s) {||}\<rparr>)"

text \<open>
  \<open>context.WithCancel\<close> panics when its parent is nil.  For any other parent it
  returns a context that is done once its \<open>cancel\<close> is called or the parent is done:
  the field \<open>ctxDone\<close> of the state, with the parent kept beside it.
\<close>

datatype panic = NilParent

definition WithCancel :: "Context option \<Rightarrow> panic + Context" where
  "WithCancel p = (case p of None \<Rightarrow> Inl NilParent | Some x \<Rightarrow> Inr x)"

text \<open>
  \<open>Scan\<close> from its first line to its receive loop: the test for a nil context, the
  call of \<open>context.WithCancel\<close>, and the start of the goroutines.  It ends in the panic
  of \<open>WithCancel\<close> or in the state the system starts from.
\<close>

definition Scan :: "'c Scanner \<Rightarrow> Context option \<Rightarrow> 'c \<Rightarrow> panic + 'c state" where
  "Scan s ctx c =
     (let ctx1 = (if ctx = None then Some Background else ctx) in
      case WithCancel ctx1 of
        Inl p \<Rightarrow> Inl p
      | Inr x \<Rightarrow> Inr (ScanStart s (Some x) c))"

text \<open>
  \<open>runSearch\<close>: the turns of \<open>search\<close>, one query each; then \<open>cancel()\<close> if it
  returned an error; then the send, which needs room in the channel; then the deferred
  \<open>wg.Done()\<close>.
\<close>

definition runSearchStep :: "'c Scanner \<Rightarrow> bool \<Rightarrow> 'c state \<Rightarrow> 'c state" where
  "runSearchStep s pr st =
     (case getWorker pr st of
        NotStarted \<Rightarrow> st
      | Searching cursor acc \<Rightarrow>
          (case searchPage s (ctxDone st) (paramsOf pr) cursor acc (client st) of
             (NextPage cursor' acc', c') \<Rightarrow> setWorker pr (Searching cursor' acc') (st\<lparr>client := c'\<rparr>)
           | (SearchReturns r, c') \<Rightarrow> setWorker pr (SearchDone r) (st\<lparr>client := c'\<rparr>))
      | SearchDone r \<Rightarrow>
          setWorker pr (Sending (mkSegment pr r))
            (case r of Inl e \<Rightarrow> st\<lparr>ctxDone := True\<rparr> | Inr b \<Rightarrow> st)
      | Sending seg \<Rightarrow>
          if length (resultCh st) < resultChCap
          then setWorker pr Sent (st\<lparr>resultCh := resultCh st @ [seg]\<rparr>)
          else st
      | Sent \<Rightarrow> setWorker pr Exited (st\<lparr>wg := wg st - 1\<rparr>)
      | Exited \<Rightarrow> st)"

text \<open>\<open>wg.Wait(); close(resultCh)\<close>.\<close>

definition waitCloseStep :: "'c state \<Rightarrow> 'c state" where
  "waitCloseStep st = (if wg st = 0 then st\<lparr>closed := True\<rparr> else st)"

text \<open>
  One turn of \<open>for seg := range resultCh\<close>, or the end of \<open>Scan\<close> once the channel is
  closed and empty.  Either return runs the deferred \<open>cancel()\<close>.
\<close>

definition mainStep :: "'c state \<Rightarrow> 'c state" where
  "mainStep st =
     (case main st of
        ScanReturned res e \<Rightarrow> st
      | Receiving res repoSet \<Rightarrow>
          (case resultCh st of
             seg # rest \<Rightarrow>
               (case err seg of
                  Some e \<Rightarrow> st\<lparr>ctxDone := True, resultCh := rest, main := ScanReturned res (Some e)\<rparr>
                | None \<Rightarrow>
                    (case mergeSegment seg (res, repoSet) of
                       (res', repoSet') \<Rightarrow> st\<lparr>resultCh := rest, main := Receiving res' repoSet'\<rparr>))
           | [] \<Rightarrow>
               if closed st
               then st\<lparr>ctxDone := True,
                       main := ScanReturned (res\<lparr>TotalRepos := int (fcard repoSet)\<rparr>) None\<rparr>
               else st))"

definition callerStep :: "'c state \<Rightarrow> 'c state" where
  "callerStep st = (if parent st = Cancelable then st\<lparr>ctxDone := True\<rparr> else st)"

fun step :: "'c Scanner \<Rightarrow> actor \<Rightarrow> 'c state \<Rightarrow> 'c state" where
  "step s (RunSearch pr) st = runSearchStep s pr st"
| "step s WaitClose st = waitCloseStep st"
| "step s Main st = mainStep st"
| "step s Caller st = callerStep st"

definition run :: "'c Scanner \<Rightarrow> actor list \<Rightarrow> 'c state \<Rightarrow> 'c state" where
  "run s sched st = fold (step s) sched st"

text \<open>What \<open>Scan\<close> has returned in a state, if it has.\<close>

definition scanResult :: "'c state \<Rightarrow> (Result \<times> error option) option" where
  "scanResult st = (case main st of Receiving res repoSet \<Rightarrow> None | ScanReturned res e \<Rightarrow> Some (res, e))"


text \<open>
  The segments sent on \<open>resultCh\<close> in the course of a run, in the order they were
  sent: a step sends one when it is the step of a goroutine that is about to send and
  finds room in the channel.
\<close>

definition sentBy :: "actor \<Rightarrow> 'c state \<Rightarrow> segment list" where
  "sentBy a st =
     (case a of
        RunSearch pr \<Rightarrow>
          (case getWorker pr st of
             Sending seg \<Rightarrow> if length (resultCh st) < resultChCap then [seg] else []
           | _ \<Rightarrow> [])
      | _ \<Rightarrow> [])"

fun sent :: "'c Scanner \<Rightarrow> actor list \<Rightarrow> 'c state \<Rightarrow> segment list" where
  "sent s [] st = []"
| "sent s (a # sched) st = sentBy a st @ sent s sched (step s a st)"

text \<open>
  What the \<open>search\<close> of category \<open>pr\<close> returned in the course of a run: a step returns
  \<open>r\<close> when it is the step of the goroutine of \<open>pr\<close> in its loop and the turn of the
  loop ends the search with \<open>r\<close>.  \<open>reposFrom\<close> is the repo set so returned, empty if the
  search returned an error or did not return.
\<close>

definition returnsAt :: "'c Scanner \<Rightarrow> bool \<Rightarrow> actor \<Rightarrow> 'c state \<Rightarrow> (error + buffers) list" where
  "returnsAt s pr a st =
     (if a = RunSearch pr then
        (case getWorker pr st of
           Searching cursor acc \<Rightarrow>
             (case fst (searchPage s (ctxDone st) (paramsOf pr) cursor acc (client st)) of
                SearchReturns r \<Rightarrow> [r]
              | NextPage cursor' acc' \<Rightarrow> [])
         | _ \<Rightarrow> [])
      else [])"

fun searchReturns ::
  "'c Scanner \<Rightarrow> bool \<Rightarrow> actor list \<Rightarrow> 'c state \<Rightarrow> (error + buffers) list" where
  "searchReturns s pr [] st = []"
| "searchReturns s pr (a # sched) st = returnsAt s pr a st @ searchReturns s pr sched (step s a st)"

definition runRepos :: "error + buffers \<Rightarrow> string fset" where
  "runRepos r = (case r of Inl e \<Rightarrow> {||} | Inr (ext, inn, rs) \<Rightarrow> rs)"

definition reposFrom :: "'c Scanner \<Rightarrow> bool \<Rightarrow> actor list \<Rightarrow> 'c state \<Rightarrow> string fset" where
  "reposFrom s pr sched st = ffUnion (fset_of_list (map runRepos (searchReturns s pr sched st)))"

text \<open>Whether a category is enabled in the configuration of the scanner.\<close>

definition enabled :: "'c Scanner \<Rightarrow> bool \<Rightarrow> bool" where
  "enabled s pr = (if pr then Config.IncludePRs (cfg s) else Config.IncludeIssues (cfg s))"

section \<open>Invariants of the system\<close>

text \<open>
  \<open>active\<close>: the goroutine has been counted by \<open>wg.Add\<close> and has not yet called
  \<open>wg.Done\<close>.  \<open>hasSent\<close>: it has sent its segment.
\<close>

definition active :: "worker \<Rightarrow> nat" where
  "active w = (if w = NotStarted \<or> w = Exited then 0 else 1)"

definition hasSent :: "worker \<Rightarrow> nat" where
  "hasSent w = (if w = Sent \<or> w = Exited then 1 else 0)"

definition returnedOk :: "'c state \<Rightarrow> bool" where
  "returnedOk st = (case main st of Receiving res repoSet \<Rightarrow> False
                    | ScanReturned res e \<Rightarrow> e = None)"

definition returnedErr :: "'c state \<Rightarrow> bool" where
  "returnedErr st = (case main st of Receiving res repoSet \<Rightarrow> False
                     | ScanReturned res e \<Rightarrow> e \<noteq> None)"

definition chanHasErr :: "'c state \<Rightarrow> bool" where
  "chanHasErr st = list_ex (\<lambda>seg. err seg \<noteq> None) (resultCh st)"

definition inv :: "'c state \<Rightarrow> bool" where
  "inv st =
     (wg st = active (issueWorker st) + active (prWorker st)
      \<and> length (resultCh st) \<le> hasSent (issueWorker st) + hasSent (prWorker st)
      \<and> (if closed st then wg st = 0 else True)
      \<and> (if returnedOk st then closed st \<and> resultCh st = [] else True))"

text \<open>
  \<open>failed pr st\<close>: the run of category \<open>pr\<close> has ended with an error, and the error is
  on its way: held by the goroutine before the send, in the channel after it, or
  already returned by \<open>Scan\<close>.
\<close>

definition failed :: "bool \<Rightarrow> 'c state \<Rightarrow> bool" where
  "failed pr st =
     (case getWorker pr st of
        NotStarted \<Rightarrow> False
      | Searching cursor acc \<Rightarrow> False
      | SearchDone r \<Rightarrow> isl r
      | Sending seg \<Rightarrow> err seg \<noteq> None
      | Sent \<Rightarrow> chanHasErr st \<or> returnedErr st
      | Exited \<Rightarrow> chanHasErr st \<or> returnedErr st)"

text \<open>A goroutine about to send holds a segment tagged with its own category.\<close>

definition flagged :: "'c state \<Rightarrow> bool" where
  "flagged st =
     ((case issueWorker st of Sending seg \<Rightarrow> \<not> segment.isPR seg | _ \<Rightarrow> True)
      \<and> (case prWorker st of Sending seg \<Rightarrow> segment.isPR seg | _ \<Rightarrow> True))"

text \<open>The repo set of a segment, nil read as empty.\<close>

definition segRepos :: "segment \<Rightarrow> string fset" where
  "segRepos seg = (case repos seg of None \<Rightarrow> {||} | Some ks \<Rightarrow> ks)"

section \<open>Example data\<close>

text \<open>
  The scenario of the specification: organization \<open>acme\<close>, prefix \<open>infra-\<close>; an issue in
  \<open>infra-core\<close> by \<open>alice\<close>, a member, and a pull request in \<open>infra-core\<close> by \<open>bob\<close>,
  who has no association; and an issue in \<open>other-repo\<close>.
\<close>

definition zeroIssue :: issueNode where
  "zeroIssue = \<lparr>issueNode.ID = IDNil, issueNode.Number = 0, issueNode.Title = [],
     issueNode.CreatedAt = 0, issueNode.AuthorAssociation = [],
     issueNode.Author = \<lparr>Login = []\<rparr>, issueNode.Repository = \<lparr>Name = []\<rparr>\<rparr>"

definition zeroPullRequest :: pullRequestNode where
  "zeroPullRequest = \<lparr>pullRequestNode.ID = IDNil, pullRequestNode.Number = 0,
     pullRequestNode.Title = [], pullRequestNode.CreatedAt = 0,
     pullRequestNode.AuthorAssociation = [],
     pullRequestNode.Author = \<lparr>Login = []\<rparr>, pullRequestNode.Repository = \<lparr>Name = []\<rparr>\<rparr>"

definition aliceIssue :: searchNode where
  "aliceIssue = \<lparr>Issue = \<lparr>issueNode.ID = IDString ''I_1'', issueNode.Number = 7,
       issueNode.Title = ''crash'', issueNode.CreatedAt = 1000,
       issueNode.AuthorAssociation = ''MEMBER'',
       issueNode.Author = \<lparr>Login = ''alice''\<rparr>,
       issueNode.Repository = \<lparr>Name = ''infra-core''\<rparr>\<rparr>,
     PullRequest = zeroPullRequest\<rparr>"

definition otherIssue :: searchNode where
  "otherIssue = \<lparr>Issue = \<lparr>issueNode.ID = IDString ''I_2'', issueNode.Number = 8,
       issueNode.Title = ''typo'', issueNode.CreatedAt = 1001,
       issueNode.AuthorAssociation = ''NONE'',
       issueNode.Author = \<lparr>Login = ''carol''\<rparr>,
       issueNode.Repository = \<lparr>Name = ''other-repo''\<rparr>\<rparr>,
     PullRequest = zeroPullRequest\<rparr>"

definition bobPR :: searchNode where
  "bobPR = \<lparr>Issue = zeroIssue,
     PullRequest = \<lparr>pullRequestNode.ID = IDString ''PR_1'', pullRequestNode.Number = 9,
       pullRequestNode.Title = ''fix'', pullRequestNode.CreatedAt = 2000,
       pullRequestNode.AuthorAssociation = ''NONE'',
       pullRequestNode.Author = \<lparr>Login = ''bob''\<rparr>,
       pullRequestNode.Repository = \<lparr>Name = ''infra-core''\<rparr>\<rparr>\<rparr>"

text \<open>The same pull request with no \<open>id\<close> in the response: the field stays nil.\<close>

definition bobPRNilID :: searchNode where
  "bobPRNilID = bobPR\<lparr>PullRequest := (PullRequest bobPR)\<lparr>pullRequestNode.ID := IDNil\<rparr>\<rparr>"

definition aliceItem :: Item where
  "aliceItem = \<lparr>Repo = ''infra-core'', Number = 7, Title = ''crash'', Author = ''alice'',
     CreatedAt = 1000\<rparr>"

definition bobItem :: Item where
  "bobItem = \<lparr>Repo = ''infra-core'', Number = 9, Title = ''fix'', Author = ''bob'',
     CreatedAt = 2000\<rparr>"

definition onePage :: "searchNode list \<Rightarrow> searchQuery" where
  "onePage ns = \<lparr>IssueCount = word_of_nat (length ns),
     PageInfo = \<lparr>HasNextPage = False, EndCursor = []\<rparr>, Nodes = ns\<rparr>"

text \<open>
  Three clients, each counting its calls.  \<open>acmeClient\<close> answers the issue query with
  one page holding both issues and any other query with one page holding the pull
  request.  \<open>issuesFailClient\<close> fails the issue query and answers the others as
  \<open>acmeClient\<close> does.  \<open>twoPageClient\<close> serves the issue of \<open>alice\<close> on a first page and
  the other issue on the page after cursor \<open>c1\<close>.
\<close>

definition acmeClient :: "nat GraphQLClient" where
  "acmeClient c done q n cursor =
     (if q = ''org:acme is:open is:issue'' then (Inr (onePage [aliceIssue, otherIssue]), Suc c)
      else (Inr (onePage [bobPR]), Suc c))"

definition issuesFailClient :: "nat GraphQLClient" where
  "issuesFailClient c done q n cursor =
     (if q = ''org:acme is:open is:issue'' then (Inl (QueryError ''rate limited''), Suc c)
      else (Inr (onePage [bobPR]), Suc c))"

definition twoPageClient :: "nat GraphQLClient" where
  "twoPageClient c done q n cursor =
     (case cursor of
        None \<Rightarrow> (Inr \<lparr>IssueCount = 2, PageInfo = \<lparr>HasNextPage = True, EndCursor = ''c1''\<rparr>,
                       Nodes = [aliceIssue]\<rparr>, Suc c)
      | Some x \<Rightarrow> (Inr (onePage [otherIssue]), Suc c))"

definition acmeConfig :: Config where
  "acmeConfig = \<lparr>Organization = ''acme'', RepoPrefix = ''infra-'', SkipUsers = [],
     IncludeIssues = True, IncludePRs = True, Audience = ''all''\<rparr>"

definition acmeScanner :: "nat Scanner" where
  "acmeScanner = \<lparr>cfg = acmeConfig, graph = acmeClient, skipUsers = None\<rparr>"


definition twoPageScanner :: "nat Scanner" where
  "twoPageScanner = acmeScanner\<lparr>graph := twoPageClient\<rparr>"

definition issuesFailScanner :: "nat Scanner" where
  "issuesFailScanner = acmeScanner\<lparr>graph := issuesFailClient\<rparr>"

text \<open>A scanner that skips \<open>bob\<close>, and an issue whose author has no login.\<close>

definition skipBobScanner :: "nat Scanner" where
  "skipBobScanner = acmeScanner\<lparr>skipUsers := Some {|''bob''|}\<rparr>"

definition ghostIssue :: searchNode where
  "ghostIssue = aliceIssue\<lparr>Issue := (Issue aliceIssue)\<lparr>issueNode.Author := \<lparr>Login = []\<rparr>\<rparr>\<rparr>"

definition ghostItem :: Item where
  "ghostItem = aliceItem\<lparr>Item.Author := []\<rparr>"

definition prSegment :: segment where
  "prSegment = mkSegment True (Inr ([bobItem], [], {|''infra-core''|}))"

definition failSegment :: segment where
  "failSegment = mkSegment False (Inl (QueryError ''rate limited''))"

definition acmeResult :: Result where
  "acmeResult = \<lparr>ExternalIssues = [], InternalIssues = [aliceItem], ExternalPRs = [bobItem],
     InternalPRs = [], TotalRepos = 1, IncludeIssues = True, IncludePRs = True,
     Audience = ''all''\<rparr>"

section \<open>Lemmas\<close>

lemmas assoc_defs = isInternalAssociation_def CommentAuthorAssociationOwner_def
  CommentAuthorAssociationMember_def CommentAuthorAssociationCollaborator_def

lemmas aud_defs = AudienceAll_def AudienceInternal_def AudienceExternal_def

lemma TrimSpace_acme: "TrimSpace ''acme'' \<noteq> []" "TrimSpace ''infra-'' \<noteq> []"
  by code_simp+

lemma New_Inl_iff:
  "isl (New c g)
     = (g = None \<or> TrimSpace (Organization c) = [] \<or> TrimSpace (RepoPrefix c) = []
        \<or> (Config.Audience c \<noteq> [] \<and> Config.Audience c \<noteq> AudienceAll
            \<and> Config.Audience c \<noteq> AudienceInternal \<and> Config.Audience c \<noteq> AudienceExternal))"
  by (cases g) (simp_all add: New_def Let_def aud_defs)

lemma New_Inr_cfg:
  "New c g = Inr s \<Longrightarrow>
     cfg s = c\<lparr>Config.IncludeIssues := (Config.IncludeIssues c \<or> \<not> Config.IncludePRs c),
               Config.IncludePRs := (Config.IncludePRs c \<or> \<not> Config.IncludeIssues c),
               Config.Audience := (if Config.Audience c = [] then AudienceAll else Config.Audience c)\<rparr>"
  by (cases g) (auto simp add: New_def Let_def split: if_splits)

lemma extractItem_fails:
  "idIsEmptyString (if pr then pullRequestNode.ID (PullRequest node) else issueNode.ID (Issue node))
   \<or> (if pr then Name (pullRequestNode.Repository (PullRequest node))
       else Name (issueNode.Repository (Issue node))) = []
   \<Longrightarrow> extractItem node pr = (zeroItem, [], [], False, False)"
  by (cases pr) (simp_all add: extractItem_def Let_def)

lemma processNode_repos:
  "snd (snd (processNode s pr node (ext, inn, rs)))
     = rs |\<union>| fset_of_list (trackedRepos (RepoPrefix (cfg s)) pr [node])"
  by (auto simp: processNode_def trackedRepos_def List.map_filter_simps Let_def
      split: prod.splits)

lemma trackedRepos_Cons:
  "trackedRepos p pr (node # nodes) = trackedRepos p pr [node] @ trackedRepos p pr nodes"
  by (simp add: trackedRepos_def List.map_filter_simps split: option.splits)

lemma processNodes_repos:
  "snd (snd (processNodes s pr nodes acc))
     = snd (snd acc) |\<union>| fset_of_list (trackedRepos (RepoPrefix (cfg s)) pr nodes)"
proof (induction nodes arbitrary: acc)
  case Nil
  show ?case by (simp add: processNodes_def trackedRepos_def List.map_filter_simps)
next
  case (Cons node nodes)
  obtain ext inn rs where acc: "acc = (ext, inn, rs)" by (cases acc) auto
  have "snd (snd (processNodes s pr (node # nodes) acc))
          = snd (snd (processNodes s pr nodes (processNode s pr node acc)))"
    by (simp add: processNodes_def)
  also have "\<dots> = snd (snd (processNode s pr node acc))
                 |\<union>| fset_of_list (trackedRepos (RepoPrefix (cfg s)) pr nodes)"
    by (rule Cons.IH)
  also have "\<dots> = snd (snd acc)
       |\<union>| fset_of_list (trackedRepos (RepoPrefix (cfg s)) pr (node # nodes))"
    unfolding acc processNode_repos trackedRepos_Cons [of _ _ node nodes]
    by (simp add: funion_assoc)
  finally show ?case .
qed

lemma processNodes_append:
  "processNodes s pr (xs @ ys) acc = processNodes s pr ys (processNodes s pr xs acc)"
  by (simp add: processNodes_def)

text \<open>A run is the client's part of it followed by the filters on what it delivered.\<close>

lemma searchLoop_fetchAll:
  "searchLoop n s ctx params k cursor acc c =
     (case fetchAll n (graph s) (queryString s params) ctx k cursor c of
        None \<Rightarrow> None
      | Some (Inl e, c') \<Rightarrow> Some (Inl e, c')
      | Some (Inr nodes, c') \<Rightarrow>
          Some (Inr (processNodes s (searchParams.isPR params) nodes acc), c'))"
proof (induction n arbitrary: k cursor acc c)
  case 0
  show ?case by simp
next
  case (Suc n)
  show ?case
    by (simp add: searchPage_def Suc.IH processNodes_append Let_def
        split: prod.splits sum.splits option.splits)
qed

lemma inSet_lenSet: "inSet k m \<Longrightarrow> 0 < lenSet m"
proof (cases m)
  case None
  assume "inSet k m"
  with None show ?thesis by (simp add: inSet_def)
next
  case (Some ks)
  assume "inSet k m"
  with Some have "ks \<noteq> {||}" by (auto simp: inSet_def)
  then have "0 < fcard ks" by (metis fcard_0_eq not_gr_zero)
  with Some show ?thesis by (simp add: lenSet_def)
qed

lemma mergeSegment_repoSet:
  "snd (mergeSegment seg (res, rs)) = rs |\<union>| segRepos seg"
  by (simp add: mergeSegment_def mergeRepoSets_def segRepos_def Let_def split: option.splits)

lemma fcard_funion_le: "fcard (A |\<union>| B) \<le> fcard A + fcard B"
  using fcard_funion_finter [of A B] by simp

lemma fcard_funion_eq_iff: "fcard (A |\<union>| B) = fcard A + fcard B \<longleftrightarrow> A |\<inter>| B = {||}"
  using fcard_funion_finter [of A B] by auto

section \<open>The association classifier\<close>

text \<open>
  Claim C5.  \<open>isInternalAssociation\<close> is true on exactly the three values \<open>OWNER\<close>,
  \<open>MEMBER\<close> and \<open>COLLABORATOR\<close>, the constants of \<open>githubv4\<close> it tests for, and
  false on every other value, the empty one and \<open>NONE\<close> among them.
\<close>

theorem isInternalAssociation_iff:
  "isInternalAssociation assoc = (assoc \<in> {''OWNER'', ''MEMBER'', ''COLLABORATOR''})
   \<and> isInternalAssociation CommentAuthorAssociationOwner
   \<and> isInternalAssociation CommentAuthorAssociationMember
   \<and> isInternalAssociation CommentAuthorAssociationCollaborator
   \<and> isInternalAssociation [] = False
   \<and> isInternalAssociation ''NONE'' = False
   \<and> isInternalAssociation ''CONTRIBUTOR'' = False"
  by (auto simp: assoc_defs)

section \<open>The item extractor\<close>

text \<open>
  Claim C6.  A node whose identity is absent should not be extracted.  The pull
  request of \<open>bob\<close> with a nil \<open>ID\<close> and the repository name \<open>infra-core\<close> is
  extracted all the same, with the success flag set: nil is not the empty string, so
  \<open>ID == ""\<close> is false, and the repository name is not empty.
\<close>

theorem extractItem_nil_ID_accepted:
  "pullRequestNode.ID (PullRequest bobPRNilID) = IDNil
   \<and> extractItem bobPRNilID True = (bobItem, ''infra-core'', ''bob'', False, True)"
  by (simp add: extractItem_def bobPRNilID_def bobPR_def bobItem_def idIsEmptyString_def
      assoc_defs Let_def)

section \<open>Construction\<close>

text \<open>
  Claim C8, as stated, fails: with the empty audience, which is none of \<open>all\<close>,
  \<open>internal\<close> and \<open>external\<close>, and everything else in order, \<open>New\<close> does not fail.
\<close>

theorem New_empty_audience_counterexample:
  "\<not> (isl (New (acmeConfig\<lparr>Config.Audience := []\<rparr>) (Some acmeClient))
       = (Some acmeClient = None
          \<or> TrimSpace (Organization (acmeConfig\<lparr>Config.Audience := []\<rparr>)) = []
          \<or> TrimSpace (RepoPrefix (acmeConfig\<lparr>Config.Audience := []\<rparr>)) = []
          \<or> Config.Audience (acmeConfig\<lparr>Config.Audience := []\<rparr>)
               \<notin> {AudienceAll, AudienceInternal, AudienceExternal}))"
  by (simp add: New_def acmeConfig_def aud_defs TrimSpace_acme)

text \<open>
  Claim C8, amended.  \<open>New\<close> fails exactly when no client is supplied, the organization
  or the repository prefix is blank, or the audience is neither empty nor one of \<open>all\<close>,
  \<open>internal\<close> and \<open>external\<close>.  When it succeeds, an empty audience has become \<open>all\<close>,
  and if neither issues nor pull requests were asked for, both flags are true.
\<close>

theorem New_fails_iff:
  "isl (New c g)
     = (g = None \<or> TrimSpace (Organization c) = [] \<or> TrimSpace (RepoPrefix c) = []
        \<or> (Config.Audience c \<noteq> [] \<and> Config.Audience c \<noteq> AudienceAll
            \<and> Config.Audience c \<noteq> AudienceInternal \<and> Config.Audience c \<noteq> AudienceExternal))
   \<and> (New c g = Inr s \<longrightarrow>
         Config.Audience (cfg s) = (if Config.Audience c = [] then AudienceAll else Config.Audience c)
         \<and> (if \<not> Config.IncludeIssues c \<and> \<not> Config.IncludePRs c
             then Config.IncludeIssues (cfg s) \<and> Config.IncludePRs (cfg s)
             else Config.IncludeIssues (cfg s) = Config.IncludeIssues c
                  \<and> Config.IncludePRs (cfg s) = Config.IncludePRs c))"
proof -
  have "Config.Audience (cfg s) = (if Config.Audience c = [] then AudienceAll else Config.Audience c)
         \<and> (if \<not> Config.IncludeIssues c \<and> \<not> Config.IncludePRs c
             then Config.IncludeIssues (cfg s) \<and> Config.IncludePRs (cfg s)
             else Config.IncludeIssues (cfg s) = Config.IncludeIssues c
                  \<and> Config.IncludePRs (cfg s) = Config.IncludePRs c)"
    if "New c g = Inr s"
    using New_Inr_cfg [OF that] by auto
  then show ?thesis using New_Inl_iff [of c g] by blast
qed

theorem New_fails_iff_witness:
  "New (acmeConfig\<lparr>Config.IncludeIssues := False, Config.IncludePRs := False,
                   Config.Audience := []\<rparr>) (Some acmeClient) = Inr acmeScanner
   \<and> \<not> isl (New (acmeConfig\<lparr>Config.IncludeIssues := False, Config.IncludePRs := False,
                   Config.Audience := []\<rparr>) (Some acmeClient))
   \<and> Config.Audience (cfg acmeScanner) = AudienceAll
   \<and> Config.IncludeIssues (cfg acmeScanner) \<and> Config.IncludePRs (cfg acmeScanner)"
proof -
  let ?c = "acmeConfig\<lparr>Config.IncludeIssues := False, Config.IncludePRs := False,
                   Config.Audience := []\<rparr>"
  have h: "New ?c (Some acmeClient) = Inr acmeScanner"
    by (simp add: New_def acmeConfig_def acmeScanner_def aud_defs TrimSpace_acme buildSkipMap_def)
  show ?thesis
    using h New_fails_iff [of ?c "Some acmeClient" acmeScanner]
    by (simp add: acmeConfig_def)
qed

section \<open>The filters of a run\<close>

text \<open>
  Claim C1.  When a run of \<open>search\<close> returns its buffers, its repo set is exactly the
  set of the repository names of the delivered nodes that were extracted and passed the
  prefix filter: each such name is in the set, once, a set having no duplicates, however
  many of its items were kept.  The skip set and the audience have no part in it: the
  same run under any other skip set and audience returns the same repo set.
\<close>

theorem search_repos_before_filters:
  assumes "search n s ctx params c = Some (Inr (ext, inn, rs), c')"
  shows "\<exists>nodes. fetchAll n (graph s) (queryString s params) ctx 0 None c = Some (Inr nodes, c')
           \<and> rs = fset_of_list (trackedRepos (RepoPrefix (cfg s)) (searchParams.isPR params) nodes)
           \<and> (\<forall>sk a. \<exists>ext' inn'.
                 search n (s\<lparr>skipUsers := sk, cfg := (cfg s)\<lparr>Config.Audience := a\<rparr>\<rparr>) ctx params c
                   = Some (Inr (ext', inn', rs), c'))"
proof -
  let ?q = "queryString s params"
  from assms obtain nodes where
    f: "fetchAll n (graph s) ?q ctx 0 None c = Some (Inr nodes, c')" and
    r: "(ext, inn, rs) = processNodes s (searchParams.isPR params) nodes emptyBuffers"
    by (auto simp: search_def searchLoop_fetchAll split: option.splits sum.splits prod.splits)
  have rs: "rs = fset_of_list (trackedRepos (RepoPrefix (cfg s)) (searchParams.isPR params) nodes)"
    using processNodes_repos [of s "searchParams.isPR params" nodes emptyBuffers] r [symmetric]
    by (simp add: emptyBuffers_def)
  have "\<exists>ext' inn'. search n (s\<lparr>skipUsers := sk, cfg := (cfg s)\<lparr>Config.Audience := a\<rparr>\<rparr>) ctx params c
                   = Some (Inr (ext', inn', rs), c')" for sk a
  proof -
    let ?s = "s\<lparr>skipUsers := sk, cfg := (cfg s)\<lparr>Config.Audience := a\<rparr>\<rparr>"
    have q: "queryString ?s params = ?q" by (simp add: queryString_def)
    obtain e2 i2 r2 where
      p: "processNodes ?s (searchParams.isPR params) nodes emptyBuffers = (e2, i2, r2)"
      by (cases "processNodes ?s (searchParams.isPR params) nodes emptyBuffers") auto
    have "r2 = rs"
      using processNodes_repos [of ?s "searchParams.isPR params" nodes emptyBuffers] p rs
      by (simp add: emptyBuffers_def)
    moreover have "search n ?s ctx params c = Some (Inr (e2, i2, r2), c')"
      using f p by (simp add: search_def searchLoop_fetchAll q)
    ultimately show ?thesis by blast
  qed
  with f rs show ?thesis by blast
qed

text \<open>
  The run of two pages: the issue of \<open>alice\<close> in \<open>infra-core\<close>, then the issue in
  \<open>other-repo\<close>.  With \<open>alice\<close> skipped and the audience external nothing is kept, and
  \<open>infra-core\<close> is in the repo set still.
\<close>

theorem search_repos_before_filters_witness:
  "search 2 twoPageScanner (\<lambda>k. False) (paramsOf False) 0
     = Some (Inr ([], [aliceItem], {|''infra-core''|}), 2)
   \<and> (\<exists>nodes. fetchAll 2 (graph twoPageScanner) (queryString twoPageScanner (paramsOf False))
                  (\<lambda>k. False) 0 None 0 = Some (Inr nodes, 2)
         \<and> {|''infra-core''|}
             = fset_of_list (trackedRepos (RepoPrefix (cfg twoPageScanner))
                  (searchParams.isPR (paramsOf False)) nodes))
   \<and> search 2 (twoPageScanner\<lparr>skipUsers := Some {|''alice''|},
          cfg := (cfg twoPageScanner)\<lparr>Config.Audience := ''external''\<rparr>\<rparr>)
        (\<lambda>k. False) (paramsOf False) 0
     = Some (Inr ([], [], {|''infra-core''|}), 2)"
proof -
  have h: "search 2 twoPageScanner (\<lambda>k. False) (paramsOf False) 0
             = Some (Inr ([], [aliceItem], {|''infra-core''|}), 2)"
    by code_simp
  have k: "search 2 (twoPageScanner\<lparr>skipUsers := Some {|''alice''|},
            cfg := (cfg twoPageScanner)\<lparr>Config.Audience := ''external''\<rparr>\<rparr>)
          (\<lambda>k. False) (paramsOf False) 0
        = Some (Inr ([], [], {|''infra-core''|}), 2)"
    by code_simp
  have t: "\<exists>nodes. fetchAll 2 (graph twoPageScanner) (queryString twoPageScanner (paramsOf False))
                  (\<lambda>k. False) 0 None 0 = Some (Inr nodes, 2)
         \<and> {|''infra-core''|}
             = fset_of_list (trackedRepos (RepoPrefix (cfg twoPageScanner))
                  (searchParams.isPR (paramsOf False)) nodes)"
    using search_repos_before_filters [OF h]
    by (elim exE conjE) (intro exI conjI, assumption+)
  show ?thesis by (intro conjI h k t)
qed

text \<open>
  Claim C3.  For a node that is extracted and passes the prefix and the skip filter,
  the item is kept always when the audience is \<open>all\<close>, if and only if the author is
  internal when it is \<open>internal\<close>, and if and only if the author is not internal when
  it is \<open>external\<close> (and always under any other audience, which \<open>New\<close> does not let
  through); a kept item is appended to one buffer, the internal one when its author is
  internal and the external one otherwise, and the other buffer is unchanged.
\<close>

theorem processNode_audience:
  assumes "extractItem node pr = (item, repoName, author, internalAuthor, True)"
    and "HasPrefix repoName (RepoPrefix (cfg s))"
    and "\<not> (lenSet (skipUsers s) > 0 \<and> author \<noteq> [] \<and> inSet (ToLower author) (skipUsers s))"
  shows "processNode s pr node (ext, inn, rs) =
     (let kept = (if Config.Audience (cfg s) = AudienceAll then True
                  else if Config.Audience (cfg s) = AudienceInternal then internalAuthor
                  else if Config.Audience (cfg s) = AudienceExternal then \<not> internalAuthor
                  else True)
      in if \<not> kept then (ext, inn, finsert repoName rs)
         else if internalAuthor then (ext, inn @ [item], finsert repoName rs)
         else (ext @ [item], inn, finsert repoName rs))"
  using assms by (auto simp add: processNode_def Let_def aud_defs)

theorem processNode_audience_witness:
  "extractItem aliceIssue False = (aliceItem, ''infra-core'', ''alice'', True, True)
   \<and> HasPrefix ''infra-core'' (RepoPrefix (cfg acmeScanner))
   \<and> processNode acmeScanner False aliceIssue ([], [], {||})
        = ([], [aliceItem], {|''infra-core''|})
   \<and> processNode (acmeScanner\<lparr>cfg := acmeConfig\<lparr>Config.Audience := AudienceExternal\<rparr>\<rparr>)
        False aliceIssue ([], [], {||})
        = ([], [], {|''infra-core''|})"
proof -
  have e: "extractItem aliceIssue False = (aliceItem, ''infra-core'', ''alice'', True, True)"
    by (simp add: extractItem_def aliceIssue_def aliceItem_def idIsEmptyString_def assoc_defs Let_def)
  have p: "HasPrefix ''infra-core'' (RepoPrefix (cfg acmeScanner))"
    "HasPrefix ''infra-core''
       (RepoPrefix (cfg (acmeScanner\<lparr>cfg := acmeConfig\<lparr>Config.Audience := AudienceExternal\<rparr>\<rparr>)))"
    by (simp_all add: HasPrefix_def acmeScanner_def acmeConfig_def)
  have k: "\<not> (lenSet (skipUsers acmeScanner) > 0 \<and> ''alice'' \<noteq> []
              \<and> inSet (ToLower ''alice'') (skipUsers acmeScanner))"
    "\<not> (lenSet (skipUsers (acmeScanner\<lparr>cfg := acmeConfig\<lparr>Config.Audience := AudienceExternal\<rparr>\<rparr>)) > 0
         \<and> ''alice'' \<noteq> []
         \<and> inSet (ToLower ''alice'')
              (skipUsers (acmeScanner\<lparr>cfg := acmeConfig\<lparr>Config.Audience := AudienceExternal\<rparr>\<rparr>)))"
    by (simp_all add: acmeScanner_def lenSet_def)
  show ?thesis
    using e p(1)
      processNode_audience [OF e p(1) k(1), of "[]" "[]" "{||}"]
      processNode_audience [OF e p(2) k(2), of "[]" "[]" "{||}"]
    by (simp add: acmeScanner_def acmeConfig_def aud_defs)
qed

text \<open>
  Claim C4.  An extracted node whose author login is not empty and whose lower-cased
  login is in the skip set (which is then not empty) leaves both buffers as they were.
  An extracted node with an empty login is treated, whatever the skip set, as it is with
  no skip set at all.
\<close>

theorem processNode_skip:
  "(extractItem node pr = (item, repoName, author, internalAuthor, ok) \<longrightarrow>
      author \<noteq> [] \<longrightarrow> inSet (ToLower author) (skipUsers s) \<longrightarrow>
        0 < lenSet (skipUsers s)
        \<and> fst (processNode s pr node (ext, inn, rs)) = ext
        \<and> fst (snd (processNode s pr node (ext, inn, rs))) = inn)
   \<and> (extractItem node pr = (item, repoName, author, internalAuthor, ok) \<longrightarrow>
      author = [] \<longrightarrow>
        processNode s pr node (ext, inn, rs)
          = processNode (s\<lparr>skipUsers := None\<rparr>) pr node (ext, inn, rs))"
  by (auto simp add: processNode_def Let_def lenSet_def dest: inSet_lenSet)

theorem processNode_skip_witness:
  "extractItem bobPR True = (bobItem, ''infra-core'', ''bob'', False, True)
   \<and> inSet (ToLower ''bob'') (skipUsers skipBobScanner)
   \<and> processNode skipBobScanner True bobPR ([], [], {||}) = ([], [], {|''infra-core''|})
   \<and> extractItem ghostIssue False = (ghostItem, ''infra-core'', [], True, True)
   \<and> processNode skipBobScanner False ghostIssue ([], [], {||})
        = ([], [ghostItem], {|''infra-core''|})"
proof -
  have e: "extractItem bobPR True = (bobItem, ''infra-core'', ''bob'', False, True)"
    by (simp add: extractItem_def bobPR_def bobItem_def idIsEmptyString_def assoc_defs Let_def)
  have i: "inSet (ToLower ''bob'') (skipUsers skipBobScanner)"
    by code_simp
  have g: "extractItem ghostIssue False = (ghostItem, ''infra-core'', [], True, True)"
    by (simp add: extractItem_def ghostIssue_def ghostItem_def aliceIssue_def aliceItem_def
        idIsEmptyString_def assoc_defs Let_def)
  have r: "snd (snd (processNode skipBobScanner True bobPR ([], [], {||}))) = {|''infra-core''|}"
    by code_simp
  have n: "processNode (skipBobScanner\<lparr>skipUsers := None\<rparr>) False ghostIssue ([], [], {||})
             = ([], [ghostItem], {|''infra-core''|})"
    by code_simp
  have "fst (processNode skipBobScanner True bobPR ([], [], {||})) = []
        \<and> fst (snd (processNode skipBobScanner True bobPR ([], [], {||}))) = []"
    using processNode_skip [of bobPR True bobItem "''infra-core''" "''bob''" False True
        skipBobScanner "[]" "[]" "{||}"] e i
    by simp
  with r have b: "processNode skipBobScanner True bobPR ([], [], {||}) = ([], [], {|''infra-core''|})"
    by (cases "processNode skipBobScanner True bobPR ([], [], {||})") auto
  have "processNode skipBobScanner False ghostIssue ([], [], {||})
          = processNode (skipBobScanner\<lparr>skipUsers := None\<rparr>) False ghostIssue ([], [], {||})"
    using processNode_skip [of ghostIssue False ghostItem "''infra-core''" "[]" True True
        skipBobScanner "[]" "[]" "{||}"] g
    by simp
  with e i g b n show ?thesis by simp
qed

section \<open>The goroutines of Scan\<close>

text \<open>The invariant holds at the start and is kept by every step.\<close>

lemma getWorker_setWorker [simp]:
  "getWorker pr (setWorker pr' w st) = (if pr = pr' then w else getWorker pr st)"
  by (simp add: getWorker_def setWorker_def)

lemma setWorker_fields [simp]:
  "resultCh (setWorker pr w st) = resultCh st"
  "main (setWorker pr w st) = main st"
  "closed (setWorker pr w st) = closed st"
  "wg (setWorker pr w st) = wg st"
  "ctxDone (setWorker pr w st) = ctxDone st"
  "client (setWorker pr w st) = client st"
  "parent (setWorker pr w st) = parent st"
  by (simp_all add: setWorker_def)

lemma setWorker_workers:
  "issueWorker (setWorker pr w st) = (if pr then issueWorker st else w)"
  "prWorker (setWorker pr w st) = (if pr then w else prWorker st)"
  by (simp_all add: setWorker_def)

lemma inv_ScanStart: "inv (ScanStart s ctx c)"
  by (simp add: inv_def ScanStart_def active_def hasSent_def returnedOk_def Let_def)

lemma inv_runSearchStep:
  assumes "inv st"
  shows "inv (runSearchStep s pr st)"
proof (cases "getWorker pr st")
  case NotStarted
  with assms show ?thesis by (simp add: runSearchStep_def)
next
  case (Searching cursor acc)
  with assms show ?thesis
    by (cases pr)
      (auto simp: runSearchStep_def inv_def active_def hasSent_def returnedOk_def
        getWorker_def setWorker_def split: prod.splits pageOutcome.splits)
next
  case (SearchDone r)
  with assms show ?thesis
    by (cases pr; cases r)
      (auto simp: runSearchStep_def inv_def active_def hasSent_def returnedOk_def
        getWorker_def setWorker_def)
next
  case (Sending seg)
  with assms show ?thesis
    by (cases pr)
      (auto simp: runSearchStep_def inv_def active_def hasSent_def returnedOk_def
        getWorker_def setWorker_def split: if_splits)
next
  case Sent
  with assms show ?thesis
    by (cases pr)
      (auto simp: runSearchStep_def inv_def active_def hasSent_def returnedOk_def
        getWorker_def setWorker_def split: if_splits)
next
  case Exited
  with assms show ?thesis by (simp add: runSearchStep_def)
qed

lemma inv_waitCloseStep: "inv st \<Longrightarrow> inv (waitCloseStep st)"
  by (auto simp: waitCloseStep_def inv_def returnedOk_def split: if_splits)

lemma inv_callerStep: "inv st \<Longrightarrow> inv (callerStep st)"
  by (auto simp: callerStep_def inv_def returnedOk_def split: if_splits)

lemma inv_mainStep: "inv st \<Longrightarrow> inv (mainStep st)"
  by (auto simp: mainStep_def inv_def returnedOk_def
      split: mainState.splits list.splits option.splits prod.splits if_splits)

lemma inv_step: "inv st \<Longrightarrow> inv (step s a st)"
  by (cases a) (simp_all add: inv_runSearchStep inv_waitCloseStep inv_mainStep inv_callerStep)

lemma run_append: "run s (xs @ ys) st = run s ys (run s xs st)"
  by (simp add: run_def)

lemma run_Cons: "run s (a # xs) st = run s xs (step s a st)"
  by (simp add: run_def)

lemma run_Nil: "run s [] st = st"
  by (simp add: run_def)

lemma inv_run: "inv st \<Longrightarrow> inv (run s sched st)"
  by (induction sched arbitrary: st) (simp_all add: run_Nil run_Cons inv_step)


text \<open>A failed run stays failed, and \<open>Scan\<close> cannot return success beside it.\<close>

lemma getWorker_updates [simp]:
  "getWorker pr (st\<lparr>client := c\<rparr>) = getWorker pr st"
  "getWorker pr (st\<lparr>ctxDone := d\<rparr>) = getWorker pr st"
  "getWorker pr (st\<lparr>resultCh := ch\<rparr>) = getWorker pr st"
  "getWorker pr (st\<lparr>wg := n\<rparr>) = getWorker pr st"
  "getWorker pr (st\<lparr>closed := b\<rparr>) = getWorker pr st"
  "getWorker pr (st\<lparr>main := m\<rparr>) = getWorker pr st"
  by (simp_all add: getWorker_def)

lemma chanHasErr_updates [simp]:
  "chanHasErr (st\<lparr>client := c\<rparr>) = chanHasErr st"
  "chanHasErr (st\<lparr>ctxDone := d\<rparr>) = chanHasErr st"
  "chanHasErr (st\<lparr>wg := n\<rparr>) = chanHasErr st"
  "chanHasErr (st\<lparr>closed := b\<rparr>) = chanHasErr st"
  "chanHasErr (st\<lparr>main := m\<rparr>) = chanHasErr st"
  "chanHasErr (setWorker pr w st) = chanHasErr st"
  by (simp_all add: chanHasErr_def)

lemma returnedErr_updates [simp]:
  "returnedErr (st\<lparr>client := c\<rparr>) = returnedErr st"
  "returnedErr (st\<lparr>ctxDone := d\<rparr>) = returnedErr st"
  "returnedErr (st\<lparr>wg := n\<rparr>) = returnedErr st"
  "returnedErr (st\<lparr>closed := b\<rparr>) = returnedErr st"
  "returnedErr (st\<lparr>resultCh := ch\<rparr>) = returnedErr st"
  "returnedErr (setWorker pr w st) = returnedErr st"
  by (simp_all add: returnedErr_def)

lemma getWorker_runSearchStep_other:
  "pr' \<noteq> pr \<Longrightarrow> getWorker pr (runSearchStep s pr' st) = getWorker pr st"
  by (simp add: runSearchStep_def
      split: worker.splits prod.splits pageOutcome.splits sum.splits)

lemma chanHasErr_append [simp]:
  "chanHasErr (st\<lparr>resultCh := resultCh st @ [seg]\<rparr>) = (chanHasErr st \<or> err seg \<noteq> None)"
  by (auto simp: chanHasErr_def list_ex_iff)

lemma failed_runSearchStep_same:
  assumes "failed pr st"
  shows "failed pr (runSearchStep s pr st)"
proof (cases "getWorker pr st")
  case (SearchDone r)
  with assms show ?thesis
    by (cases r) (auto simp: runSearchStep_def failed_def mkSegment_def)
next
  case (Sending seg)
  with assms show ?thesis
    by (auto simp: runSearchStep_def failed_def chanHasErr_def returnedErr_def list_ex_iff)
next
  case Sent
  with assms show ?thesis
    by (auto simp: runSearchStep_def failed_def chanHasErr_def returnedErr_def)
qed (use assms in \<open>auto simp: runSearchStep_def failed_def\<close>)

lemma failed_runSearchStep_other:
  assumes "failed pr st" and "pr' \<noteq> pr"
  shows "failed pr (runSearchStep s pr' st)"
proof -
  have w: "getWorker pr (runSearchStep s pr' st) = getWorker pr st"
    using assms(2) by (rule getWorker_runSearchStep_other)
  have m: "returnedErr st \<Longrightarrow> returnedErr (runSearchStep s pr' st)"
    by (simp add: runSearchStep_def
        split: worker.splits prod.splits pageOutcome.splits sum.splits)
  have c: "chanHasErr st \<Longrightarrow> chanHasErr (runSearchStep s pr' st)"
    by (simp add: runSearchStep_def
        split: worker.splits prod.splits pageOutcome.splits sum.splits)
  from assms(1) show ?thesis
    unfolding failed_def w using m c by (auto split: worker.splits)
qed

lemma failed_runSearchStep: "failed pr st \<Longrightarrow> failed pr (runSearchStep s pr' st)"
  by (cases "pr' = pr") (simp_all add: failed_runSearchStep_same failed_runSearchStep_other)

lemma failed_waitCloseStep: "failed pr st \<Longrightarrow> failed pr (waitCloseStep st)"
  by (auto simp: waitCloseStep_def failed_def split: worker.splits)

lemma failed_callerStep: "failed pr st \<Longrightarrow> failed pr (callerStep st)"
  by (auto simp: callerStep_def failed_def split: worker.splits)

lemma mainStep_delivers:
  "chanHasErr st \<or> returnedErr st \<Longrightarrow> chanHasErr (mainStep st) \<or> returnedErr (mainStep st)"
  by (auto simp: mainStep_def chanHasErr_def returnedErr_def
      split: mainState.splits list.splits option.splits prod.splits)

lemma getWorker_mainStep [simp]: "getWorker pr (mainStep st) = getWorker pr st"
  by (simp add: mainStep_def
      split: mainState.splits list.splits option.splits prod.splits)

lemma failed_mainStep: "failed pr st \<Longrightarrow> failed pr (mainStep st)"
  using mainStep_delivers [of st] by (auto simp: failed_def split: worker.splits)

lemma failed_step: "failed pr st \<Longrightarrow> failed pr (step s a st)"
  by (cases a)
    (simp_all add: failed_runSearchStep failed_waitCloseStep failed_mainStep failed_callerStep)

lemma failed_run: "failed pr st \<Longrightarrow> failed pr (run s sched st)"
  by (induction sched arbitrary: st) (simp_all add: run_Nil run_Cons failed_step)

lemma failed_not_returnedOk:
  assumes "failed pr st" and "inv st"
  shows "\<not> returnedOk st"
proof
  assume ok: "returnedOk st"
  with assms(2) have c: "closed st" "resultCh st = []" "wg st = 0"
    by (auto simp: inv_def split: if_splits)
  with assms(2) have a: "active (issueWorker st) = 0" "active (prWorker st) = 0"
    by (auto simp: inv_def)
  have "active (getWorker pr st) = 0" using a by (simp add: getWorker_def)
  then have "getWorker pr st = NotStarted \<or> getWorker pr st = Exited"
    by (simp add: active_def split: if_splits)
  with assms(1) c(2) ok show False
    by (auto simp: failed_def chanHasErr_def returnedErr_def returnedOk_def
        split: mainState.splits)
qed

text \<open>Cancellation is never undone, and a run that failed cancels at its next step.\<close>

lemma ctxDone_step: "ctxDone st \<Longrightarrow> ctxDone (step s a st)"
proof (cases a)
  case (RunSearch pr)
  assume "ctxDone st"
  with RunSearch show ?thesis
    by (simp add: runSearchStep_def
        split: worker.splits prod.splits pageOutcome.splits sum.splits)
next
  case WaitClose
  assume "ctxDone st"
  with WaitClose show ?thesis by (simp add: waitCloseStep_def)
next
  case Main
  assume "ctxDone st"
  with Main show ?thesis
    by (simp add: mainStep_def split: mainState.splits list.splits option.splits prod.splits)
next
  case Caller
  assume "ctxDone st"
  with Caller show ?thesis by (simp add: callerStep_def)
qed

lemma ctxDone_run: "ctxDone st \<Longrightarrow> ctxDone (run s sched st)"
  by (induction sched arbitrary: st) (simp_all add: run_Nil run_Cons ctxDone_step)

lemma cancel_due_step:
  assumes "getWorker pr st = SearchDone (Inl e) \<or> ctxDone st"
  shows "getWorker pr (step s a st) = SearchDone (Inl e) \<or> ctxDone (step s a st)"
proof (cases "ctxDone st")
  case True
  then show ?thesis by (simp add: ctxDone_step)
next
  case False
  with assms have w: "getWorker pr st = SearchDone (Inl e)" by simp
  show ?thesis
  proof (cases a)
    case (RunSearch pr')
    show ?thesis
    proof (cases "pr' = pr")
      case True
      with w RunSearch show ?thesis by (simp add: runSearchStep_def)
    next
      case False
      with w RunSearch show ?thesis by (simp add: getWorker_runSearchStep_other)
    qed
  next
    case WaitClose
    with w show ?thesis by (simp add: waitCloseStep_def)
  next
    case Main
    with w show ?thesis by simp
  next
    case Caller
    with w show ?thesis by (simp add: callerStep_def)
  qed
qed

lemma cancel_due_run:
  "getWorker pr st = SearchDone (Inl e) \<or> ctxDone st
   \<Longrightarrow> getWorker pr (run s sched st) = SearchDone (Inl e) \<or> ctxDone (run s sched st)"
proof (induction sched arbitrary: st)
  case Nil
  then show ?case by (simp add: run_Nil)
next
  case (Cons a sched)
  from Cons.IH [OF cancel_due_step [OF Cons.prems]] show ?case by (simp add: run_Cons)
qed

lemma cancel_done:
  "getWorker pr st = SearchDone (Inl e) \<or> ctxDone st \<Longrightarrow> ctxDone (runSearchStep s pr st)"
  by (auto simp: runSearchStep_def
      split: worker.splits prod.splits pageOutcome.splits sum.splits)


text \<open>
  The channel always has room for a send, and two receives after a failed run has sent
  its segment are enough for \<open>Scan\<close> to return an error.
\<close>

lemma inv_length:
  "inv st \<Longrightarrow> length (resultCh st) \<le> hasSent (getWorker pr st) + hasSent (getWorker (\<not> pr) st)"
  by (cases pr) (simp_all add: inv_def getWorker_def)

lemma send_has_room:
  assumes "inv st" and "getWorker pr st = Sending seg"
  shows "length (resultCh st) < resultChCap"
proof -
  have "hasSent (getWorker (\<not> pr) st) \<le> 1" by (simp add: hasSent_def)
  with inv_length [OF assms(1), of pr] assms(2) show ?thesis
    by (simp add: hasSent_def resultChCap_def)
qed

lemma send_step:
  assumes "inv st" and "getWorker pr st = Sending seg"
  shows "runSearchStep s pr st = setWorker pr Sent (st\<lparr>resultCh := resultCh st @ [seg]\<rparr>)"
  using send_has_room [OF assms] assms(2) by (simp add: runSearchStep_def)

lemma failed_two_steps:
  assumes "failed pr st" and "inv st"
  shows "getWorker pr (runSearchStep s pr (runSearchStep s pr st)) = Sent
       \<or> getWorker pr (runSearchStep s pr (runSearchStep s pr st)) = Exited"
proof (cases "getWorker pr st")
  case (SearchDone r)
  let ?st1 = "runSearchStep s pr st"
  have w1: "getWorker pr ?st1 = Sending (mkSegment pr r)"
    using SearchDone by (simp add: runSearchStep_def)
  have "inv ?st1" using assms(2) by (rule inv_runSearchStep)
  from send_step [OF this w1] show ?thesis by simp
next
  case (Sending seg)
  from send_step [OF assms(2) Sending] show ?thesis by (simp add: runSearchStep_def)
next
  case Sent
  then show ?thesis by (simp add: runSearchStep_def)
next
  case Exited
  then show ?thesis by (simp add: runSearchStep_def)
qed (use assms(1) in \<open>simp_all add: failed_def\<close>)

lemma mainStep_error:
  "main st = Receiving res rs \<Longrightarrow> resultCh st = seg # rest \<Longrightarrow> err seg = Some e
   \<Longrightarrow> mainStep st = st\<lparr>ctxDone := True, resultCh := rest, main := ScanReturned res (Some e)\<rparr>"
  by (simp add: mainStep_def)

lemma mainStep_returned: "main st = ScanReturned res r \<Longrightarrow> mainStep st = st"
  by (simp add: mainStep_def)

lemma returnedErr_mainStep: "returnedErr st \<Longrightarrow> returnedErr (mainStep st)"
  by (auto simp: returnedErr_def mainStep_def split: mainState.splits)

lemma two_receives:
  assumes "inv st" and "chanHasErr st \<or> returnedErr st"
  shows "returnedErr (mainStep (mainStep st))"
proof (cases "returnedErr st")
  case True
  then show ?thesis by (simp add: returnedErr_mainStep)
next
  case False
  with assms(2) have ch: "chanHasErr st" by simp
  then obtain seg rest where c: "resultCh st = seg # rest"
    by (cases "resultCh st") (auto simp: chanHasErr_def)
  have "hasSent (getWorker True st) \<le> 1" "hasSent (getWorker False st) \<le> 1"
    by (simp_all add: hasSent_def)
  with inv_length [OF assms(1), of True] c have len: "length rest \<le> 1" by simp
  from assms(1) c have "\<not> returnedOk st" by (auto simp: inv_def split: if_splits)
  with False obtain res rs where m: "main st = Receiving res rs"
    by (cases "main st") (auto simp: returnedOk_def returnedErr_def)
  show ?thesis
  proof (cases "err seg")
    case (Some e)
    from mainStep_error [OF m c Some] have "returnedErr (mainStep st)"
      by (simp add: returnedErr_def)
    then show ?thesis by (rule returnedErr_mainStep)
  next
    case None
    obtain res' rs' where g: "mergeSegment seg (res, rs) = (res', rs')"
      by (cases "mergeSegment seg (res, rs)") auto
    have s1: "mainStep st = st\<lparr>resultCh := rest, main := Receiving res' rs'\<rparr>"
      using m c None g by (simp add: mainStep_def)
    from ch c None have "list_ex (\<lambda>x. err x \<noteq> None) rest" by (simp add: chanHasErr_def)
    with len obtain seg2 where r: "rest = [seg2]" and e2: "err seg2 \<noteq> None"
      by (cases rest) auto
    then obtain e where "err seg2 = Some e" by auto
    with r s1 show ?thesis by (simp add: mainStep_def returnedErr_def)
  qed
qed

lemma scanResult_returned:
  "returnedErr st = (\<exists>res e. scanResult st = Some (res, Some e))"
  "returnedOk st = (\<exists>res. scanResult st = Some (res, None))"
  by (auto simp: returnedErr_def returnedOk_def scanResult_def split: mainState.splits)


text \<open>A goroutine whose \<open>search\<close> has returned exits within its next three steps.\<close>

lemma worker_exits:
  assumes "inv st" and "getWorker pr st = SearchDone r"
  shows "getWorker pr (run s [RunSearch pr, RunSearch pr, RunSearch pr] st) = Exited"
proof -
  let ?st1 = "runSearchStep s pr st"
  have w1: "getWorker pr ?st1 = Sending (mkSegment pr r)"
    using assms(2) by (simp add: runSearchStep_def)
  have i1: "inv ?st1" using assms(1) by (rule inv_runSearchStep)
  have "getWorker pr (runSearchStep s pr ?st1) = Sent"
    using send_step [OF i1 w1, of s] by simp
  then have "getWorker pr (runSearchStep s pr (runSearchStep s pr ?st1)) = Exited"
    by (simp add: runSearchStep_def)
  then show ?thesis by (simp add: run_Cons run_Nil)
qed

section \<open>A failing fetch\<close>

text \<open>
  Claim C2.  Take any state \<open>Scan\<close> can reach in which the run of an enabled category
  is about to query, and let the client answer that query with an error.  Then the run
  ends with that error, and from there on, under every schedule: \<open>Scan\<close> never returns
  a nil error; it has returned an error as soon as the failed goroutine has taken two
  more steps and the receiver two; and once the failed goroutine has taken one more
  step, its \<open>cancel()\<close>, the shared context is done for good, so that every later query
  of the other run is made under a done context.  The error \<open>Scan\<close> returns is that of
  the first segment with an error it receives.
\<close>

theorem Scan_fetch_error:
  assumes "st = run s sched (ScanStart s ctx c)"
    and "getWorker pr st = Searching cursor acc"
    and "graph s (client st) (ctxDone st) (queryString s (paramsOf pr)) graphPageSize cursor
           = (Inl e, c')"
  shows "getWorker pr (step s (RunSearch pr) st) = SearchDone (Inl e)
       \<and> (\<forall>sched' res. scanResult (run s sched' (step s (RunSearch pr) st)) \<noteq> Some (res, None))
       \<and> (\<forall>sched'. \<exists>res e'.
             scanResult (run s (sched' @ [RunSearch pr, RunSearch pr, Main, Main])
                           (step s (RunSearch pr) st)) = Some (res, Some e'))
       \<and> (\<forall>sched' sched''.
             ctxDone (run s (sched' @ [RunSearch pr] @ sched'') (step s (RunSearch pr) st)))
       \<and> (\<forall>st' res rs seg rest e'.
             main st' = Receiving res rs \<longrightarrow> resultCh st' = seg # rest \<longrightarrow> err seg = Some e'
               \<longrightarrow> scanResult (step s Main st') = Some (res, Some e'))"
proof -
  let ?st1 = "step s (RunSearch pr) st"
  have i0: "inv st" using assms(1) by (simp add: inv_run inv_ScanStart)
  have w1: "getWorker pr ?st1 = SearchDone (Inl e)"
    using assms(2,3) by (simp add: runSearchStep_def searchPage_def)
  have i1: "inv ?st1" using i0 by (rule inv_step)
  have f1: "failed pr ?st1" using w1 by (simp add: failed_def)
  have a: "scanResult (run s sched' ?st1) \<noteq> Some (res, None)" for sched' res
  proof -
    have "failed pr (run s sched' ?st1)" using f1 by (rule failed_run)
    moreover have "inv (run s sched' ?st1)" using i1 by (rule inv_run)
    ultimately have "\<not> returnedOk (run s sched' ?st1)" by (rule failed_not_returnedOk)
    then show ?thesis by (auto simp: scanResult_returned)
  qed
  have b: "\<exists>res e'. scanResult (run s (sched' @ [RunSearch pr, RunSearch pr, Main, Main]) ?st1)
             = Some (res, Some e')" for sched'
  proof -
    let ?st2 = "run s sched' ?st1"
    let ?st3 = "runSearchStep s pr (runSearchStep s pr ?st2)"
    have f2: "failed pr ?st2" and i2: "inv ?st2"
      using f1 i1 by (simp_all add: failed_run inv_run)
    have f3: "failed pr ?st3" and i3: "inv ?st3"
      using f2 i2 by (simp_all add: failed_runSearchStep inv_runSearchStep)
    from failed_two_steps [OF f2 i2, of s] f3 have "chanHasErr ?st3 \<or> returnedErr ?st3"
      by (auto simp: failed_def)
    from two_receives [OF i3 this] show ?thesis
      by (simp add: run_append run_Cons run_Nil scanResult_returned)
  qed
  have d: "ctxDone (run s (sched' @ [RunSearch pr] @ sched'') ?st1)" for sched' sched''
  proof -
    have "getWorker pr (run s sched' ?st1) = SearchDone (Inl e) \<or> ctxDone (run s sched' ?st1)"
      using w1 by (intro cancel_due_run) simp
    then have "ctxDone (runSearchStep s pr (run s sched' ?st1))" by (rule cancel_done)
    then show ?thesis by (simp add: run_append run_Cons run_Nil ctxDone_run)
  qed
  have g: "scanResult (step s Main st') = Some (res, Some e')"
    if "main st' = Receiving res rs" "resultCh st' = seg # rest" "err seg = Some e'"
    for st' :: "'a state" and res rs seg rest e'
    using mainStep_error [OF that] by (simp add: scanResult_def)
  from w1 a b d g show ?thesis by blast
qed


text \<open>
  The issue query fails at once.  Whatever the run of the pull requests does first,
  two steps of the failed goroutine and two receives later \<open>Scan\<close> has returned the
  error, and the context is done after the first of these steps.
\<close>

theorem Scan_fetch_error_witness:
  "getWorker False (run issuesFailScanner [] (ScanStart issuesFailScanner None 0))
     = Searching None emptyBuffers
   \<and> issuesFailClient 0 False ''org:acme is:open is:issue'' 100 None
     = (Inl (QueryError ''rate limited''), 1)
   \<and> (\<exists>res e'. scanResult
         (run issuesFailScanner
            ([RunSearch True, RunSearch True] @ [RunSearch False, RunSearch False, Main, Main])
            (step issuesFailScanner (RunSearch False)
               (run issuesFailScanner [] (ScanStart issuesFailScanner None 0))))
         = Some (res, Some e'))
   \<and> ctxDone
         (run issuesFailScanner ([RunSearch True] @ [RunSearch False] @ [RunSearch True])
            (step issuesFailScanner (RunSearch False)
               (run issuesFailScanner [] (ScanStart issuesFailScanner None 0))))"
proof -
  let ?st = "run issuesFailScanner [] (ScanStart issuesFailScanner None 0)"
  have h2: "getWorker False ?st = Searching None emptyBuffers"
    by (simp add: run_def ScanStart_def getWorker_def issuesFailScanner_def acmeScanner_def
        acmeConfig_def)
  have h3: "graph issuesFailScanner (client ?st) (ctxDone ?st)
              (queryString issuesFailScanner (paramsOf False)) graphPageSize None
            = (Inl (QueryError ''rate limited''), 1)"
    by (simp add: run_def ScanStart_def issuesFailScanner_def acmeScanner_def acmeConfig_def
        issuesFailClient_def queryString_def paramsOf_def)
  have h4: "issuesFailClient 0 False ''org:acme is:open is:issue'' 100 None
              = (Inl (QueryError ''rate limited''), 1)"
    by (simp add: issuesFailClient_def)
  note T = Scan_fetch_error [where st = ?st and s = issuesFailScanner and sched = "[]"
      and ctx = None and c = 0 and pr = False and cursor = None and acc = emptyBuffers
      and e = "QueryError ''rate limited''" and c' = 1, OF refl h2 h3]
  from T have a: "\<exists>res e'. scanResult
         (run issuesFailScanner
            ([RunSearch True, RunSearch True] @ [RunSearch False, RunSearch False, Main, Main])
            (step issuesFailScanner (RunSearch False) ?st)) = Some (res, Some e')"
    by blast
  from T have b: "ctxDone
         (run issuesFailScanner ([RunSearch True] @ [RunSearch False] @ [RunSearch True])
            (step issuesFailScanner (RunSearch False) ?st))"
    by blast
  show ?thesis by (intro conjI h2 h4 a b)
qed

section \<open>Returning at the first error\<close>

text \<open>
  Claim C9, as stated, fails.  The issue query fails, the pull request query succeeds,
  and both goroutines send their segments before \<open>Scan\<close> receives.  The first receive
  gets the segment with the error and \<open>Scan\<close> returns it: the segment of the pull
  requests is still in the channel, and stays there, \<open>Scan\<close> receiving no more.
\<close>

theorem Scan_not_drained_counterexample:
  "scanResult
     (run issuesFailScanner
        [RunSearch False, RunSearch False, RunSearch False,
         RunSearch True, RunSearch True, RunSearch True, Main]
        (ScanStart issuesFailScanner None 0))
     = Some (initResult issuesFailScanner, Some (QueryError ''rate limited''))
   \<and> resultCh
     (run issuesFailScanner
        [RunSearch False, RunSearch False, RunSearch False,
         RunSearch True, RunSearch True, RunSearch True, Main]
        (ScanStart issuesFailScanner None 0))
     = [prSegment]
   \<and> resultCh
     (run issuesFailScanner
        [RunSearch False, RunSearch False, RunSearch False,
         RunSearch True, RunSearch True, RunSearch True, Main, Main, WaitClose, Main]
        (ScanStart issuesFailScanner None 0))
     = [prSegment]"
  by code_simp


text \<open>
  Claim C9, amended.  In every state \<open>Scan\<close> can reach: a receive of a segment that
  carries an error makes \<open>Scan\<close> return that error at once, with the rest of the channel
  left as it is; once \<open>Scan\<close> has returned, it receives nothing more; and no goroutine is
  held up by that, since a goroutine about to send finds room in the channel, of
  capacity 2, and one whose \<open>search\<close> has returned exits within its next three steps.
\<close>

theorem Scan_returns_at_first_error:
  assumes "st = run s sched (ScanStart s ctx c)"
  shows "(main st = Receiving res rs \<longrightarrow> resultCh st = seg # rest \<longrightarrow> err seg = Some e \<longrightarrow>
            scanResult (step s Main st) = Some (res, Some e)
            \<and> resultCh (step s Main st) = rest)
       \<and> (scanResult st \<noteq> None \<longrightarrow> step s Main st = st)
       \<and> (getWorker pr st = Sending seg' \<longrightarrow>
            length (resultCh st) < resultChCap
            \<and> getWorker pr (step s (RunSearch pr) st) = Sent
            \<and> resultCh (step s (RunSearch pr) st) = resultCh st @ [seg'])
       \<and> (getWorker pr st = SearchDone r \<longrightarrow>
            getWorker pr (run s [RunSearch pr, RunSearch pr, RunSearch pr] st) = Exited)"
proof -
  have i: "inv st" using assms by (simp add: inv_run inv_ScanStart)
  have a: "scanResult (step s Main st) = Some (res, Some e) \<and> resultCh (step s Main st) = rest"
    if "main st = Receiving res rs" "resultCh st = seg # rest" "err seg = Some e"
    using mainStep_error [OF that] by (simp add: scanResult_def)
  have b: "step s Main st = st" if "scanResult st \<noteq> None"
    using that by (cases "main st") (simp_all add: scanResult_def mainStep_def)
  have d: "length (resultCh st) < resultChCap
            \<and> getWorker pr (step s (RunSearch pr) st) = Sent
            \<and> resultCh (step s (RunSearch pr) st) = resultCh st @ [seg']"
    if "getWorker pr st = Sending seg'"
    using send_has_room [OF i that] send_step [OF i that, of s] by simp
  have f: "getWorker pr (run s [RunSearch pr, RunSearch pr, RunSearch pr] st) = Exited"
    if "getWorker pr st = SearchDone r"
    using i that by (rule worker_exits)
  from a b d f show ?thesis by blast
qed

text \<open>
  In the run above: the segment with the error at the head of the channel and the
  segment of the pull requests behind it; and, before that, the goroutine of the pull
  requests about to send into a channel that holds one segment.
\<close>

theorem Scan_returns_at_first_error_witness:
  "main (run issuesFailScanner
           [RunSearch False, RunSearch False, RunSearch False,
            RunSearch True, RunSearch True, RunSearch True]
           (ScanStart issuesFailScanner None 0))
     = Receiving (initResult issuesFailScanner) {||}
   \<and> resultCh (run issuesFailScanner
           [RunSearch False, RunSearch False, RunSearch False,
            RunSearch True, RunSearch True, RunSearch True]
           (ScanStart issuesFailScanner None 0))
     = failSegment # [prSegment]
   \<and> err failSegment = Some (QueryError ''rate limited'')
   \<and> scanResult (step issuesFailScanner Main
        (run issuesFailScanner
           [RunSearch False, RunSearch False, RunSearch False,
            RunSearch True, RunSearch True, RunSearch True]
           (ScanStart issuesFailScanner None 0)))
     = Some (initResult issuesFailScanner, Some (QueryError ''rate limited''))
   \<and> resultCh (step issuesFailScanner Main
        (run issuesFailScanner
           [RunSearch False, RunSearch False, RunSearch False,
            RunSearch True, RunSearch True, RunSearch True]
           (ScanStart issuesFailScanner None 0)))
     = [prSegment]
   \<and> getWorker True (run issuesFailScanner
           [RunSearch False, RunSearch False, RunSearch False, RunSearch True, RunSearch True]
           (ScanStart issuesFailScanner None 0))
     = Sending prSegment
   \<and> getWorker True (step issuesFailScanner (RunSearch True)
        (run issuesFailScanner
           [RunSearch False, RunSearch False, RunSearch False, RunSearch True, RunSearch True]
           (ScanStart issuesFailScanner None 0)))
     = Sent"
proof -
  let ?A = "run issuesFailScanner
           [RunSearch False, RunSearch False, RunSearch False,
            RunSearch True, RunSearch True, RunSearch True]
           (ScanStart issuesFailScanner None 0)"
  let ?B = "run issuesFailScanner
           [RunSearch False, RunSearch False, RunSearch False, RunSearch True, RunSearch True]
           (ScanStart issuesFailScanner None 0)"
  have m: "main ?A = Receiving (initResult issuesFailScanner) {||}" by code_simp
  have ch: "resultCh ?A = failSegment # [prSegment]" by code_simp
  have e: "err failSegment = Some (QueryError ''rate limited'')" by code_simp
  have w: "getWorker True ?B = Sending prSegment" by code_simp
  note TA = Scan_returns_at_first_error [where st = ?A and s = issuesFailScanner
      and ctx = None and c = 0, OF refl]
  note TB = Scan_returns_at_first_error [where st = ?B and s = issuesFailScanner
      and ctx = None and c = 0, OF refl]
  from TA m ch e have
    a: "scanResult (step issuesFailScanner Main ?A)
          = Some (initResult issuesFailScanner, Some (QueryError ''rate limited''))
        \<and> resultCh (step issuesFailScanner Main ?A) = [prSegment]"
    by blast
  from TB w have b: "getWorker True (step issuesFailScanner (RunSearch True) ?B) = Sent"
    by blast
  from m ch e a w b show ?thesis by (intro conjI) (erule conjunct1 conjunct2 | assumption)+
qed

section \<open>The repository count\<close>

text \<open>What \<open>Scan\<close> has returned does not change, and a step sends what \<open>sentBy\<close> says.\<close>

lemma scanResult_step: "scanResult st \<noteq> None \<Longrightarrow> scanResult (step s a st) = scanResult st"
proof (cases a)
  case (RunSearch pr)
  then show ?thesis
    by (simp add: scanResult_def runSearchStep_def
        split: worker.splits prod.splits pageOutcome.splits sum.splits)
next
  case WaitClose
  then show ?thesis by (simp add: scanResult_def waitCloseStep_def)
next
  case Main
  assume "scanResult st \<noteq> None"
  with Main show ?thesis
    by (cases "main st") (simp_all add: scanResult_def mainStep_def)
next
  case Caller
  then show ?thesis by (simp add: scanResult_def callerStep_def)
qed

lemma scanResult_run: "scanResult st \<noteq> None \<Longrightarrow> scanResult (run s sched st) = scanResult st"
proof (induction sched arbitrary: st)
  case Nil
  show ?case by (simp add: run_Nil)
next
  case (Cons a sched)
  from Cons.prems have "scanResult (step s a st) = scanResult st" by (rule scanResult_step)
  with Cons.prems Cons.IH [of "step s a st"] show ?case by (simp add: run_Cons)
qed

lemma runSearchStep_chan:
  "resultCh (runSearchStep s pr st) = resultCh st @ sentBy (RunSearch pr) st
   \<and> main (runSearchStep s pr st) = main st"
  by (simp add: runSearchStep_def sentBy_def
      split: worker.splits prod.splits pageOutcome.splits sum.splits)

lemma quiet_sent:
  "active (issueWorker st) = 0 \<Longrightarrow> active (prWorker st) = 0 \<Longrightarrow> sent s sched st = []"
proof (induction sched arbitrary: st)
  case Nil
  show ?case by simp
next
  case (Cons a sched)
  have w: "getWorker pr st = NotStarted \<or> getWorker pr st = Exited" for pr
    using Cons.prems by (cases pr) (simp_all add: getWorker_def active_def split: if_splits)
  have st: "issueWorker (step s a st) = issueWorker st \<and> prWorker (step s a st) = prWorker st"
  proof (cases a)
    case (RunSearch pr)
    with w [of pr] show ?thesis by (auto simp: runSearchStep_def)
  next
    case WaitClose
    then show ?thesis by (simp add: waitCloseStep_def)
  next
    case Main
    then show ?thesis
      by (simp add: mainStep_def split: mainState.splits list.splits option.splits prod.splits)
  next
    case Caller
    then show ?thesis by (simp add: callerStep_def)
  qed
  have "sentBy a st = []"
  proof (cases a)
    case (RunSearch pr)
    with w [of pr] show ?thesis by (auto simp: sentBy_def)
  qed (simp_all add: sentBy_def)
  with Cons.IH [of "step s a st"] st Cons.prems show ?case by simp
qed

text \<open>
  From a state in which \<open>Scan\<close> is receiving: if the run ends with \<open>Scan\<close> returning
  no error, then what was merged before, what was in the channel and what was sent
  during the run is all that was merged, and none of it carried an error.
\<close>

lemma TotalRepos_run:
  assumes "inv st" and "main st = Receiving res rs"
    and "scanResult (run s sched st) = Some (res', None)"
  shows "TotalRepos res'
           = int (fcard (rs |\<union>| ffUnion (fset_of_list (map segRepos (resultCh st @ sent s sched st)))))
         \<and> list_all (\<lambda>seg. err seg = None) (resultCh st @ sent s sched st)"
  using assms
proof (induction sched arbitrary: st res rs)
  case Nil
  then show ?case by (simp add: run_Nil scanResult_def)
next
  case (Cons a sched)
  let ?st1 = "step s a st"
  have i1: "inv ?st1" using Cons.prems(1) by (rule inv_step)
  have r1: "scanResult (run s sched ?st1) = Some (res', None)"
    using Cons.prems(3) by (simp add: run_Cons)
  show ?case
  proof (cases a)
    case (RunSearch pr)
    have c: "resultCh ?st1 = resultCh st @ sentBy a st" and m: "main ?st1 = Receiving res rs"
      using RunSearch runSearchStep_chan [of s pr st] Cons.prems(2) by simp_all
    from Cons.IH [OF i1 m r1] c show ?thesis by simp
  next
    case WaitClose
    have c: "resultCh ?st1 = resultCh st" and m: "main ?st1 = Receiving res rs"
      and b: "sentBy a st = []"
      using WaitClose Cons.prems(2) by (simp_all add: waitCloseStep_def sentBy_def)
    from Cons.IH [OF i1 m r1] c b show ?thesis by simp
  next
    case Caller
    have c: "resultCh ?st1 = resultCh st" and m: "main ?st1 = Receiving res rs"
      and b: "sentBy a st = []"
      using Caller Cons.prems(2) by (simp_all add: callerStep_def sentBy_def)
    from Cons.IH [OF i1 m r1] c b show ?thesis by simp
  next
    case Main
    have b: "sentBy a st = []" using Main by (simp add: sentBy_def)
    show ?thesis
    proof (cases "resultCh st")
      case Nil
      show ?thesis
      proof (cases "closed st")
        case False
        with Nil Main Cons.prems(2) have "?st1 = st" by (simp add: mainStep_def)
        with Cons.IH [OF Cons.prems(1) Cons.prems(2)] r1 b show ?thesis by simp
      next
        case True
        with Nil Main Cons.prems(2)
        have s1: "scanResult ?st1 = Some (res\<lparr>TotalRepos := int (fcard rs)\<rparr>, None)"
          by (simp add: mainStep_def scanResult_def)
        with scanResult_run [of ?st1 s sched] r1
        have t: "res' = res\<lparr>TotalRepos := int (fcard rs)\<rparr>" by simp
        from True Cons.prems(1) have "wg st = 0" by (simp add: inv_def)
        with Cons.prems(1) have q: "active (issueWorker st) = 0" "active (prWorker st) = 0"
          by (simp_all add: inv_def)
        have q1: "active (issueWorker ?st1) = 0" "active (prWorker ?st1) = 0"
          using q Main Nil True Cons.prems(2) by (simp_all add: mainStep_def)
        have "sent s sched ?st1 = []" using q1 by (rule quiet_sent)
        with t Nil b show ?thesis by simp
      qed
    next
      case (Cons seg rest)
      show ?thesis
      proof (cases "err seg")
        case (Some e)
        with Cons Main Cons.prems(2) have "scanResult ?st1 = Some (res, Some e)"
          by (simp add: mainStep_def scanResult_def)
        with scanResult_run [of ?st1 s sched] r1 show ?thesis by simp
      next
        case None
        obtain res1 rs1 where g: "mergeSegment seg (res, rs) = (res1, rs1)"
          by (cases "mergeSegment seg (res, rs)") auto
        have rs1: "rs1 = rs |\<union>| segRepos seg"
          using mergeSegment_repoSet [of seg res rs] g by simp
        have c: "resultCh ?st1 = rest" and m: "main ?st1 = Receiving res1 rs1"
          using Cons None Main Cons.prems(2) g by (simp_all add: mainStep_def)
        from Cons.IH [OF i1 m r1] c b Cons None rs1 show ?thesis
          by (simp add: funion_assoc)
      qed
    qed
  qed
qed


text \<open>
  Each goroutine sends one segment, tagged with its category, on its way to \<open>Sent\<close>;
  a category that is not enabled has no goroutine and stays so.
\<close>

lemma flagged_ScanStart: "flagged (ScanStart s ctx c)"
  by (simp add: flagged_def ScanStart_def Let_def)

lemma flagged_getWorker:
  "flagged st \<Longrightarrow> getWorker pr st = Sending seg \<Longrightarrow> segment.isPR seg = pr"
  by (cases pr) (auto simp: flagged_def getWorker_def)

lemma flagged_step: "flagged st \<Longrightarrow> flagged (step s a st)"
proof (cases a)
  case (RunSearch pr)
  assume "flagged st"
  with RunSearch show ?thesis
    by (cases pr)
      (auto simp: flagged_def runSearchStep_def getWorker_def setWorker_def mkSegment_def
        split: worker.splits prod.splits pageOutcome.splits sum.splits)
next
  case WaitClose
  assume "flagged st"
  with WaitClose show ?thesis by (simp add: flagged_def waitCloseStep_def)
next
  case Main
  assume "flagged st"
  with Main show ?thesis
    by (simp add: flagged_def mainStep_def
        split: mainState.splits list.splits option.splits prod.splits)
next
  case Caller
  assume "flagged st"
  with Caller show ?thesis by (simp add: flagged_def callerStep_def)
qed

lemma getWorker_step_other:
  "a \<noteq> RunSearch pr \<Longrightarrow> getWorker pr (step s a st) = getWorker pr st"
proof (cases a)
  case (RunSearch pr')
  assume "a \<noteq> RunSearch pr"
  with RunSearch have "pr' \<noteq> pr" by simp
  with RunSearch show ?thesis by (simp add: getWorker_runSearchStep_other)
next
  case WaitClose
  then show ?thesis by (simp add: waitCloseStep_def)
next
  case Main
  then show ?thesis by simp
next
  case Caller
  then show ?thesis by (simp add: callerStep_def)
qed

lemma sentBy_count:
  assumes "flagged st"
  shows "length (filter (\<lambda>seg. segment.isPR seg = pr) (sentBy a st)) + hasSent (getWorker pr st)
           = hasSent (getWorker pr (step s a st))"
proof (cases "a = RunSearch pr")
  case True
  show ?thesis
  proof (cases "getWorker pr st")
    case (Sending seg)
    with True flagged_getWorker [OF assms Sending] show ?thesis
      by (simp add: sentBy_def runSearchStep_def hasSent_def)
  qed (use True in \<open>auto simp: sentBy_def runSearchStep_def hasSent_def
        split: prod.splits pageOutcome.splits\<close>)
next
  case False
  have w: "getWorker pr (step s a st) = getWorker pr st"
    using False by (rule getWorker_step_other)
  have "filter (\<lambda>seg. segment.isPR seg = pr) (sentBy a st) = []"
  proof (cases a)
    case (RunSearch pr')
    with False have n: "pr' \<noteq> pr" by simp
    show ?thesis
    proof (cases "getWorker pr' st")
      case (Sending seg)
      with RunSearch n flagged_getWorker [OF assms Sending] show ?thesis
        by (auto simp: sentBy_def)
    qed (use RunSearch in \<open>simp_all add: sentBy_def\<close>)
  qed (simp_all add: sentBy_def)
  with w show ?thesis by simp
qed

lemma sent_count:
  "flagged st \<Longrightarrow>
     length (filter (\<lambda>seg. segment.isPR seg = pr) (sent s sched st)) + hasSent (getWorker pr st)
       = hasSent (getWorker pr (run s sched st))"
proof (induction sched arbitrary: st)
  case Nil
  show ?case by (simp add: run_Nil)
next
  case (Cons a sched)
  from Cons.IH [OF flagged_step [OF Cons.prems], of s a] sentBy_count [OF Cons.prems, of pr a s]
  show ?case by (simp add: run_Cons)
qed

lemma NotStarted_step: "(getWorker pr (step s a st) = NotStarted) = (getWorker pr st = NotStarted)"
proof (cases "a = RunSearch pr")
  case True
  then show ?thesis
    by (auto simp: runSearchStep_def
        split: worker.splits prod.splits pageOutcome.splits sum.splits if_splits)
next
  case False
  then show ?thesis by (simp add: getWorker_step_other)
qed

lemma NotStarted_run: "(getWorker pr (run s sched st) = NotStarted) = (getWorker pr st = NotStarted)"
  by (induction sched arbitrary: st) (simp_all add: run_Nil run_Cons NotStarted_step)

lemma ScanStart_worker:
  "getWorker pr (ScanStart s ctx c)
     = (if enabled s pr then Searching None emptyBuffers else NotStarted)"
  by (cases pr) (simp_all add: ScanStart_def getWorker_def enabled_def Let_def)

lemma sent_per_category:
  assumes "scanResult (run s sched (ScanStart s ctx c)) = Some (res, None)"
  shows "length (filter (\<lambda>seg. segment.isPR seg = pr) (sent s sched (ScanStart s ctx c)))
           = (if enabled s pr then 1 else 0)"
proof -
  let ?init = "ScanStart s ctx c"
  let ?st = "run s sched ?init"
  have i: "inv ?st" by (simp add: inv_run inv_ScanStart)
  from assms have ok: "returnedOk ?st" by (auto simp: scanResult_returned)
  with i have "wg ?st = 0" by (auto simp: inv_def split: if_splits)
  with i have "active (issueWorker ?st) = 0" "active (prWorker ?st) = 0"
    by (simp_all add: inv_def)
  then have "active (getWorker pr ?st) = 0" by (simp add: getWorker_def)
  then have e: "getWorker pr ?st = NotStarted \<or> getWorker pr ?st = Exited"
    by (simp add: active_def split: if_splits)
  have n: "(getWorker pr ?st = NotStarted) = (\<not> enabled s pr)"
    by (simp add: NotStarted_run ScanStart_worker)
  have h: "hasSent (getWorker pr ?st) = (if enabled s pr then 1 else 0)"
  proof (cases "enabled s pr")
    case True
    with n have "getWorker pr ?st \<noteq> NotStarted" by simp
    with e have w: "getWorker pr ?st = Exited" by simp
    have "hasSent Exited = 1" by (simp add: hasSent_def)
    with True show ?thesis unfolding w by simp
  next
    case False
    with n have w: "getWorker pr ?st = NotStarted" by simp
    have "hasSent NotStarted = 0" by (simp add: hasSent_def)
    with False show ?thesis unfolding w by simp
  qed
  have "hasSent (getWorker pr ?init) = 0" by (simp add: ScanStart_worker hasSent_def)
  with sent_count [OF flagged_ScanStart, of pr s sched s ctx c] h show ?thesis by simp
qed


text \<open>
  The segment a goroutine sends is the one \<open>runSearch\<close> builds from what its \<open>search\<close>
  returned.  \<open>toSend\<close> is what the goroutine of \<open>pr\<close> has yet to send, given what its
  search has yet to return.
\<close>

lemma sentBy_other:
  assumes "flagged st" and "a \<noteq> RunSearch pr"
  shows "filter (\<lambda>seg. segment.isPR seg = pr) (sentBy a st) = []"
proof (cases a)
  case (RunSearch pr')
  with assms(2) have n: "pr' \<noteq> pr" by simp
  show ?thesis
  proof (cases "getWorker pr' st")
    case (Sending seg)
    with RunSearch n flagged_getWorker [OF assms(1) Sending] show ?thesis
      by (auto simp: sentBy_def)
  qed (use RunSearch in \<open>simp_all add: sentBy_def\<close>)
qed (simp_all add: sentBy_def)

lemma not_Searching_step:
  assumes "\<forall>cursor acc. getWorker pr st \<noteq> Searching cursor acc"
  shows "\<forall>cursor acc. getWorker pr (step s a st) \<noteq> Searching cursor acc"
proof (cases "a = RunSearch pr")
  case True
  with assms show ?thesis
    by (cases "getWorker pr st") (auto simp: runSearchStep_def)
next
  case False
  with assms show ?thesis by (simp add: getWorker_step_other)
qed

lemma searchReturns_done:
  "\<forall>cursor acc. getWorker pr st \<noteq> Searching cursor acc \<Longrightarrow> searchReturns s pr sched st = []"
proof (induction sched arbitrary: st)
  case Nil
  show ?case by simp
next
  case (Cons a sched)
  have "returnsAt s pr a st = []"
    using Cons.prems by (cases "getWorker pr st") (auto simp: returnsAt_def)
  with Cons.IH [OF not_Searching_step [OF Cons.prems]] show ?case by simp
qed

lemma sent_is_built:
  assumes "flagged st"
    and "getWorker pr (run s sched st) = NotStarted \<or> getWorker pr (run s sched st) = Sent
         \<or> getWorker pr (run s sched st) = Exited"
  shows "filter (\<lambda>seg. segment.isPR seg = pr) (sent s sched st)
           = (case getWorker pr st of
                Searching cursor acc \<Rightarrow> map (mkSegment pr) (searchReturns s pr sched st)
              | SearchDone r \<Rightarrow> [mkSegment pr r]
              | Sending seg \<Rightarrow> [seg]
              | _ \<Rightarrow> [])"
  using assms
proof (induction sched arbitrary: st)
  case Nil
  then show ?case by (auto simp: run_Nil)
next
  case (Cons a sched)
  let ?st1 = "step s a st"
  have f1: "flagged ?st1" using Cons.prems(1) by (rule flagged_step)
  have e1: "getWorker pr (run s sched ?st1) = NotStarted \<or> getWorker pr (run s sched ?st1) = Sent
         \<or> getWorker pr (run s sched ?st1) = Exited"
    using Cons.prems(2) by (simp add: run_Cons)
  note IH = Cons.IH [OF f1 e1]
  show ?case
  proof (cases "a = RunSearch pr")
    case False
    have w: "getWorker pr ?st1 = getWorker pr st" using False by (rule getWorker_step_other)
    have r: "returnsAt s pr a st = []" using False by (simp add: returnsAt_def)
    from IH sentBy_other [OF Cons.prems(1) False] w r show ?thesis
      by (simp split: worker.splits)
  next
    case True
    show ?thesis
    proof (cases "getWorker pr st")
      case NotStarted
      with True have "getWorker pr ?st1 = NotStarted" by (simp add: runSearchStep_def)
      with IH NotStarted True show ?thesis by (simp add: sentBy_def)
    next
      case (Searching cursor acc)
      obtain out c' where sp:
        "searchPage s (ctxDone st) (paramsOf pr) cursor acc (client st) = (out, c')"
        by (cases "searchPage s (ctxDone st) (paramsOf pr) cursor acc (client st)") auto
      show ?thesis
      proof (cases out)
        case (NextPage cursor' acc')
        with True Searching sp have "getWorker pr ?st1 = Searching cursor' acc'"
          by (simp add: runSearchStep_def)
        with IH True Searching sp NextPage show ?thesis
          by (simp add: sentBy_def returnsAt_def)
      next
        case (SearchReturns r)
        with True Searching sp have w1: "getWorker pr ?st1 = SearchDone r"
          by (simp add: runSearchStep_def)
        then have "searchReturns s pr sched ?st1 = []"
          by (intro searchReturns_done) simp
        with IH True Searching sp SearchReturns w1 show ?thesis
          by (simp add: sentBy_def returnsAt_def)
      qed
    next
      case (SearchDone r)
      with True have "getWorker pr ?st1 = Sending (mkSegment pr r)"
        by (simp add: runSearchStep_def)
      with IH True SearchDone show ?thesis by (simp add: sentBy_def)
    next
      case (Sending seg)
      have fl: "segment.isPR seg = pr" using Cons.prems(1) Sending by (rule flagged_getWorker)
      show ?thesis
      proof (cases "length (resultCh st) < resultChCap")
        case room: True
        with True Sending have "getWorker pr ?st1 = Sent" by (simp add: runSearchStep_def)
        with IH True Sending room fl show ?thesis by (simp add: sentBy_def)
      next
        case full: False
        with True Sending have "getWorker pr ?st1 = Sending seg" by (simp add: runSearchStep_def)
        with IH True Sending full show ?thesis by (simp add: sentBy_def)
      qed
    next
      case Sent
      with True have "getWorker pr ?st1 = Exited" by (simp add: runSearchStep_def)
      with IH True Sent show ?thesis by (simp add: sentBy_def)
    next
      case Exited
      with True have "getWorker pr ?st1 = Exited" by (simp add: runSearchStep_def)
      with IH True Exited show ?thesis by (simp add: sentBy_def)
    qed
  qed
qed

lemma segRepos_mkSegment: "segRepos (mkSegment pr r) = runRepos r"
  by (simp add: segRepos_def mkSegment_def runRepos_def split: sum.splits prod.splits)

lemma union_by_flag:
  "ffUnion (fset_of_list (map segRepos xs))
     = ffUnion (fset_of_list (map segRepos (filter (\<lambda>seg. segment.isPR seg = False) xs)))
       |\<union>| ffUnion (fset_of_list (map segRepos (filter (\<lambda>seg. segment.isPR seg = True) xs)))"
  by (induction xs) auto


lemma final_worker:
  assumes "scanResult (run s sched (ScanStart s ctx c)) = Some (res, None)"
  shows "getWorker pr (run s sched (ScanStart s ctx c))
           = (if enabled s pr then Exited else NotStarted)"
proof -
  let ?fin = "run s sched (ScanStart s ctx c)"
  have i: "inv ?fin" by (simp add: inv_run inv_ScanStart)
  from assms have ok: "returnedOk ?fin" by (auto simp: scanResult_returned)
  with i have "wg ?fin = 0" by (auto simp: inv_def split: if_splits)
  with i have "active (issueWorker ?fin) = 0" "active (prWorker ?fin) = 0"
    by (simp_all add: inv_def)
  then have "active (getWorker pr ?fin) = 0" by (simp add: getWorker_def)
  then have e: "getWorker pr ?fin = NotStarted \<or> getWorker pr ?fin = Exited"
    by (simp add: active_def split: if_splits)
  have n: "(getWorker pr ?fin = NotStarted) = (\<not> enabled s pr)"
    by (simp add: NotStarted_run ScanStart_worker)
  show ?thesis
  proof (cases "enabled s pr")
    case True
    with n have "getWorker pr ?fin \<noteq> NotStarted" by simp
    with e True show ?thesis by simp
  next
    case False
    with n show ?thesis by simp
  qed
qed

lemma sent_of_category:
  assumes "scanResult (run s sched (ScanStart s ctx c)) = Some (res, None)"
  shows "filter (\<lambda>seg. segment.isPR seg = pr) (sent s sched (ScanStart s ctx c))
           = map (mkSegment pr) (searchReturns s pr sched (ScanStart s ctx c))"
proof -
  let ?init = "ScanStart s ctx c"
  have f: "getWorker pr (run s sched ?init) = NotStarted \<or> getWorker pr (run s sched ?init) = Sent
         \<or> getWorker pr (run s sched ?init) = Exited"
    using final_worker [OF assms, of pr] by (simp split: if_splits)
  show ?thesis
  proof (cases "enabled s pr")
    case True
    with sent_is_built [OF flagged_ScanStart f] show ?thesis
      by (simp add: ScanStart_worker)
  next
    case False
    then have "getWorker pr ?init = NotStarted" by (simp add: ScanStart_worker)
    then have "searchReturns s pr sched ?init = []"
      by (intro searchReturns_done) simp
    with sent_is_built [OF flagged_ScanStart f] False show ?thesis
      by (simp add: ScanStart_worker)
  qed
qed

lemma search_returned_once:
  assumes "scanResult (run s sched (ScanStart s ctx c)) = Some (res, None)"
  shows "if enabled s pr
         then \<exists>ext inn rs. searchReturns s pr sched (ScanStart s ctx c) = [Inr (ext, inn, rs)]
                \<and> reposFrom s pr sched (ScanStart s ctx c) = rs
         else searchReturns s pr sched (ScanStart s ctx c) = []"
proof (cases "enabled s pr")
  case False
  then have "getWorker pr (ScanStart s ctx c) = NotStarted" by (simp add: ScanStart_worker)
  then have "searchReturns s pr sched (ScanStart s ctx c) = []"
    by (intro searchReturns_done) simp
  with False show ?thesis by simp
next
  case True
  let ?init = "ScanStart s ctx c"
  let ?rets = "searchReturns s pr sched ?init"
  have m0: "main ?init = Receiving (initResult s) {||}" and c0: "resultCh ?init = []"
    by (simp_all add: ScanStart_def Let_def)
  from TotalRepos_run [OF inv_ScanStart m0 assms] c0
  have e: "list_all (\<lambda>seg. err seg = None) (sent s sched ?init)" by simp
  have b: "filter (\<lambda>seg. segment.isPR seg = pr) (sent s sched ?init) = map (mkSegment pr) ?rets"
    using assms by (rule sent_of_category)
  from sent_per_category [OF assms, of pr] True b have "length ?rets = 1" by simp
  then obtain r where r: "?rets = [r]" by (cases ?rets) auto
  have "mkSegment pr r \<in> set (filter (\<lambda>seg. segment.isPR seg = pr) (sent s sched ?init))"
    unfolding b r by simp
  then have "mkSegment pr r \<in> set (sent s sched ?init)" by simp
  with e have "err (mkSegment pr r) = None" by (simp add: list_all_iff)
  then obtain ext inn rs where "r = Inr (ext, inn, rs)"
    by (cases r) (auto simp: mkSegment_def)
  with r True show ?thesis by (simp add: reposFrom_def runRepos_def)
qed

text \<open>
  Claim C7.  Whenever \<open>Scan\<close> returns without an error, the \<open>search\<close> of each enabled
  category has returned once, with buffers and no error, and that of a category not
  enabled has not run; and \<open>TotalRepos\<close> of the result is the size of the union of the
  repo sets the two searches returned (the empty set for a category not enabled).  So
  the count is at most the sum of the sizes of the two repo sets, and equal to it if
  and only if the two sets are disjoint.
\<close>

theorem TotalRepos_union:
  assumes "scanResult (run s sched (ScanStart s ctx c)) = Some (res, None)"
  shows "TotalRepos res
           = int (fcard (reposFrom s False sched (ScanStart s ctx c)
                         |\<union>| reposFrom s True sched (ScanStart s ctx c)))
       \<and> TotalRepos res \<le> int (fcard (reposFrom s False sched (ScanStart s ctx c)))
                            + int (fcard (reposFrom s True sched (ScanStart s ctx c)))
       \<and> ((TotalRepos res = int (fcard (reposFrom s False sched (ScanStart s ctx c)))
                              + int (fcard (reposFrom s True sched (ScanStart s ctx c))))
            = (reposFrom s False sched (ScanStart s ctx c)
                 |\<inter>| reposFrom s True sched (ScanStart s ctx c) = {||}))
       \<and> (if Config.IncludeIssues (cfg s)
          then \<exists>ext inn rs. searchReturns s False sched (ScanStart s ctx c) = [Inr (ext, inn, rs)]
                 \<and> reposFrom s False sched (ScanStart s ctx c) = rs
          else searchReturns s False sched (ScanStart s ctx c) = [])
       \<and> (if Config.IncludePRs (cfg s)
          then \<exists>ext inn rs. searchReturns s True sched (ScanStart s ctx c) = [Inr (ext, inn, rs)]
                 \<and> reposFrom s True sched (ScanStart s ctx c) = rs
          else searchReturns s True sched (ScanStart s ctx c) = [])"
proof -
  let ?init = "ScanStart s ctx c"
  let ?A = "reposFrom s False sched ?init"
  let ?B = "reposFrom s True sched ?init"
  have m0: "main ?init = Receiving (initResult s) {||}" and c0: "resultCh ?init = []"
    by (simp_all add: ScanStart_def Let_def)
  from TotalRepos_run [OF inv_ScanStart m0 assms] c0
  have t: "TotalRepos res = int (fcard (ffUnion (fset_of_list (map segRepos (sent s sched ?init)))))"
    by simp
  have p: "ffUnion (fset_of_list (map segRepos
             (filter (\<lambda>seg. segment.isPR seg = pr) (sent s sched ?init))))
           = reposFrom s pr sched ?init" for pr
    unfolding sent_of_category [OF assms] reposFrom_def
    by (simp add: o_def segRepos_mkSegment)
  have u: "TotalRepos res = int (fcard (?A |\<union>| ?B))"
    unfolding t union_by_flag [of "sent s sched ?init"] p ..
  have le: "TotalRepos res \<le> int (fcard ?A) + int (fcard ?B)"
    using u fcard_funion_le [of ?A ?B] by simp
  have eq: "(TotalRepos res = int (fcard ?A) + int (fcard ?B)) = (?A |\<inter>| ?B = {||})"
    using u fcard_funion_eq_iff [of ?A ?B] by (simp flip: of_nat_add)
  have i: "if Config.IncludeIssues (cfg s)
          then \<exists>ext inn rs. searchReturns s False sched ?init = [Inr (ext, inn, rs)] \<and> ?A = rs
          else searchReturns s False sched ?init = []"
    using search_returned_once [OF assms, of False] by (simp add: enabled_def)
  have q: "if Config.IncludePRs (cfg s)
          then \<exists>ext inn rs. searchReturns s True sched ?init = [Inr (ext, inn, rs)] \<and> ?B = rs
          else searchReturns s True sched ?init = []"
    using search_returned_once [OF assms, of True] by (simp add: enabled_def)
  show ?thesis by (intro conjI u le eq i q)
qed

text \<open>
  The scenario, run to its end: both searches return \<open>infra-core\<close>, the count is 1,
  below the sum 2 of the two sizes, the sets not being disjoint.
\<close>

theorem TotalRepos_union_witness:
  "scanResult (run acmeScanner
       [RunSearch False, RunSearch True, RunSearch False, RunSearch True, RunSearch True,
        RunSearch False, RunSearch False, RunSearch True, WaitClose, Main, Main, Main]
       (ScanStart acmeScanner None 0))
     = Some (acmeResult, None)
   \<and> reposFrom acmeScanner False
       [RunSearch False, RunSearch True, RunSearch False, RunSearch True, RunSearch True,
        RunSearch False, RunSearch False, RunSearch True, WaitClose, Main, Main, Main]
       (ScanStart acmeScanner None 0)
     = {|''infra-core''|}
   \<and> reposFrom acmeScanner True
       [RunSearch False, RunSearch True, RunSearch False, RunSearch True, RunSearch True,
        RunSearch False, RunSearch False, RunSearch True, WaitClose, Main, Main, Main]
       (ScanStart acmeScanner None 0)
     = {|''infra-core''|}
   \<and> TotalRepos acmeResult = 1
   \<and> TotalRepos acmeResult = int (fcard ({|''infra-core''|} |\<union>| {|''infra-core''|}))
   \<and> TotalRepos acmeResult \<le> int (fcard {|''infra-core''|}) + int (fcard {|''infra-core''|})"
proof -
  let ?sched = "[RunSearch False, RunSearch True, RunSearch False, RunSearch True, RunSearch True,
        RunSearch False, RunSearch False, RunSearch True, WaitClose, Main, Main, Main]"
  have h: "scanResult (run acmeScanner ?sched (ScanStart acmeScanner None 0))
             = Some (acmeResult, None)"
    by code_simp
  have a: "reposFrom acmeScanner False ?sched (ScanStart acmeScanner None 0) = {|''infra-core''|}"
    by code_simp
  have b: "reposFrom acmeScanner True ?sched (ScanStart acmeScanner None 0) = {|''infra-core''|}"
    by code_simp
  have t: "TotalRepos acmeResult = 1" by (simp add: acmeResult_def)
  note T = TotalRepos_union [OF h, unfolded a b]
  have u: "TotalRepos acmeResult = int (fcard ({|''infra-core''|} |\<union>| {|''infra-core''|}))"
    using T by (rule conjunct1)
  have le: "TotalRepos acmeResult \<le> int (fcard {|''infra-core''|}) + int (fcard {|''infra-core''|})"
    using T by (elim conjE)
  show ?thesis by (intro conjI h a b t u le)
qed


section \<open>A nil context\<close>

text \<open>
  Under the background context nothing outside \<open>Scan\<close> ends the context: it is done
  only once a search has failed or \<open>Scan\<close> has returned.
\<close>

lemma parent_step: "parent (step s a st) = parent st"
proof (cases a)
  case (RunSearch pr)
  then show ?thesis
    by (cases pr)
      (simp_all add: runSearchStep_def setWorker_def
        split: worker.splits prod.splits pageOutcome.splits sum.splits)
next
  case WaitClose
  then show ?thesis by (simp add: waitCloseStep_def)
next
  case Main
  then show ?thesis
    by (simp add: mainStep_def split: mainState.splits list.splits option.splits prod.splits)
next
  case Caller
  then show ?thesis by (simp add: callerStep_def)
qed

lemma parent_run: "parent (run s sched st) = parent st"
  by (induction sched arbitrary: st) (simp_all add: run_Nil run_Cons parent_step)

lemma ctxDone_cause:
  assumes "parent st = Background" and "ctxDone (step s a st)" and "\<not> ctxDone st"
  shows "failed False (step s a st) \<or> failed True (step s a st)
         \<or> scanResult (step s a st) \<noteq> None"
proof (cases a)
  case (RunSearch pr)
  have "failed pr (step s a st)"
  proof (cases "getWorker pr st")
    case (SearchDone r)
    with RunSearch assms(2,3) show ?thesis
      by (cases r) (auto simp: runSearchStep_def failed_def mkSegment_def)
  qed (use RunSearch assms(2,3) in \<open>auto simp: runSearchStep_def
        split: prod.splits pageOutcome.splits if_splits\<close>)
  then show ?thesis by (cases pr) simp_all
next
  case WaitClose
  with assms(2,3) show ?thesis by (simp add: waitCloseStep_def split: if_splits)
next
  case Main
  with assms(2,3) show ?thesis
    by (auto simp: mainStep_def scanResult_def
        split: mainState.splits list.splits option.splits prod.splits if_splits)
next
  case Caller
  with assms show ?thesis by (simp add: callerStep_def)
qed

lemma background_step:
  assumes "parent st = Background"
    and "if ctxDone st then failed False st \<or> failed True st \<or> scanResult st \<noteq> None else True"
  shows "if ctxDone (step s a st)
         then failed False (step s a st) \<or> failed True (step s a st)
              \<or> scanResult (step s a st) \<noteq> None
         else True"
proof (cases "ctxDone st")
  case True
  with assms(2) have "failed False st \<or> failed True st \<or> scanResult st \<noteq> None" by simp
  then have "failed False (step s a st) \<or> failed True (step s a st)
             \<or> scanResult (step s a st) \<noteq> None"
    using failed_step [of False st s a] failed_step [of True st s a] scanResult_step [of st s a]
    by auto
  then show ?thesis by simp
next
  case False
  show ?thesis
  proof (cases "ctxDone (step s a st)")
    case True
    from ctxDone_cause [OF assms(1) True False] True show ?thesis by simp
  next
    case False
    then show ?thesis by simp
  qed
qed

lemma background_run:
  assumes "parent st = Background"
    and "if ctxDone st then failed False st \<or> failed True st \<or> scanResult st \<noteq> None else True"
  shows "if ctxDone (run s sched st)
         then failed False (run s sched st) \<or> failed True (run s sched st)
              \<or> scanResult (run s sched st) \<noteq> None
         else True"
  using assms
proof (induction sched arbitrary: st)
  case Nil
  from Nil(2) show ?case unfolding run_Nil .
next
  case (Cons a sched)
  have p: "parent (step s a st) = Background" using Cons.prems(1) by (simp add: parent_step)
  from Cons.IH [OF p background_step [OF Cons.prems]] show ?case unfolding run_Cons .
qed

text \<open>
  Claim C10.  \<open>context.WithCancel\<close> panics on a nil parent, and \<open>Scan\<close> called with a
  nil context does not: it puts the background context in its place and starts as
  \<open>Scan\<close> called with the background context does, with a context that is not done,
  a goroutine for each enabled category, an empty channel and an empty result.  It then
  runs as under the background context: the parent stays \<open>Background\<close>, a step of the
  caller changes nothing, and the context is done only once a search has failed or
  \<open>Scan\<close> has returned.
\<close>

theorem Scan_nil_context:
  "WithCancel None = Inl NilParent
   \<and> Scan s None c = Inr (ScanStart s (Some Background) c)
   \<and> Scan s None c = Scan s (Some Background) c
   \<and> ScanStart s (Some Background) c =
       \<lparr>parent = Background, ctxDone = False, client = c,
        issueWorker = (if Config.IncludeIssues (cfg s) then Searching None emptyBuffers
                       else NotStarted),
        prWorker = (if Config.IncludePRs (cfg s) then Searching None emptyBuffers
                    else NotStarted),
        wg = (if Config.IncludeIssues (cfg s) then 1 else 0)
             + (if Config.IncludePRs (cfg s) then 1 else 0),
        resultCh = [], closed = False,
        main = Receiving (initResult s) {||}\<rparr>
   \<and> parent (run s sched (ScanStart s (Some Background) c)) = Background
   \<and> step s Caller (run s sched (ScanStart s (Some Background) c))
       = run s sched (ScanStart s (Some Background) c)
   \<and> (if ctxDone (run s sched (ScanStart s (Some Background) c))
      then failed False (run s sched (ScanStart s (Some Background) c))
           \<or> failed True (run s sched (ScanStart s (Some Background) c))
           \<or> scanResult (run s sched (ScanStart s (Some Background) c)) \<noteq> None
      else True)"
proof -
  let ?init = "ScanStart s (Some Background) c"
  have a: "WithCancel None = Inl NilParent" by (simp add: WithCancel_def)
  have b: "Scan s None c = Inr ?init" by (simp add: Scan_def WithCancel_def)
  have b': "Scan s None c = Scan s (Some Background) c" by (simp add: Scan_def WithCancel_def)
  have d: "?init =
       \<lparr>parent = Background, ctxDone = False, client = c,
        issueWorker = (if Config.IncludeIssues (cfg s) then Searching None emptyBuffers
                       else NotStarted),
        prWorker = (if Config.IncludePRs (cfg s) then Searching None emptyBuffers
                    else NotStarted),
        wg = (if Config.IncludeIssues (cfg s) then 1 else 0)
             + (if Config.IncludePRs (cfg s) then 1 else 0),
        resultCh = [], closed = False,
        main = Receiving (initResult s) {||}\<rparr>"
    by (simp add: ScanStart_def)
  have p0: "parent ?init = Background" and n0: "\<not> ctxDone ?init"
    by (simp_all add: ScanStart_def)
  have p: "parent (run s sched ?init) = Background" using p0 by (simp add: parent_run)
  then have q: "step s Caller (run s sched ?init) = run s sched ?init"
    by (simp add: callerStep_def)
  have k: "if ctxDone (run s sched ?init)
      then failed False (run s sched ?init) \<or> failed True (run s sched ?init)
           \<or> scanResult (run s sched ?init) \<noteq> None
      else True"
    using p0 n0 by (intro background_run) simp_all
  show ?thesis by (intro conjI a b b' d p q k)
qed

text \<open>
  The scenario of the failing issue query, started with a nil context: the context is
  done after the \<open>cancel()\<close> of the failed goroutine, and was not before.
\<close>

theorem Scan_nil_context_witness:
  "Scan issuesFailScanner None 0 = Inr (ScanStart issuesFailScanner (Some Background) 0)
   \<and> \<not> ctxDone (run issuesFailScanner [RunSearch False, RunSearch True]
                  (ScanStart issuesFailScanner (Some Background) 0))
   \<and> ctxDone (run issuesFailScanner [RunSearch False, RunSearch True, RunSearch False]
                (ScanStart issuesFailScanner (Some Background) 0))
   \<and> (failed False (run issuesFailScanner [RunSearch False, RunSearch True, RunSearch False]
                (ScanStart issuesFailScanner (Some Background) 0))
       \<or> failed True (run issuesFailScanner [RunSearch False, RunSearch True, RunSearch False]
                (ScanStart issuesFailScanner (Some Background) 0))
       \<or> scanResult (run issuesFailScanner [RunSearch False, RunSearch True, RunSearch False]
                (ScanStart issuesFailScanner (Some Background) 0)) \<noteq> None)"
proof -
  let ?A = "run issuesFailScanner [RunSearch False, RunSearch True]
                  (ScanStart issuesFailScanner (Some Background) 0)"
  let ?B = "run issuesFailScanner [RunSearch False, RunSearch True, RunSearch False]
                  (ScanStart issuesFailScanner (Some Background) 0)"
  have n: "\<not> ctxDone ?A" by code_simp
  have y: "ctxDone ?B" by code_simp
  note T = Scan_nil_context [of issuesFailScanner 0
      "[RunSearch False, RunSearch True, RunSearch False]"]
  from T have s: "Scan issuesFailScanner None 0
                    = Inr (ScanStart issuesFailScanner (Some Background) 0)"
    by (elim conjE)
  from T have "if ctxDone ?B
      then failed False ?B \<or> failed True ?B \<or> scanResult ?B \<noteq> None else True"
    by (elim conjE)
  with y have f: "failed False ?B \<or> failed True ?B \<or> scanResult ?B \<noteq> None" by simp
  show ?thesis by (intro conjI s n y f)
qed

end
